theory Spec2Isabelle
  imports Complex_Main "HOL-Library.Word"
begin

section \<open>The limit order book of orderbook.cpp\<close>

text \<open>
  The embedding follows \<^verbatim>\<open>src/orderbook/orderbook.cpp\<close>.

  \<^item> \<^verbatim>\<open>uint64_t\<close> is \<open>64 word\<close>: sums and counters wrap as in the source.
  \<^item> A \<^verbatim>\<open>double\<close> price is the real number it denotes; NaN and the infinities are not
    prices. Comparisons of doubles are exact, so the map orders and \<^verbatim>\<open>>=\<close> are the
    orders of the reals. The one rounding operation of the source, the subtraction in
    \<^verbatim>\<open>amend_order\<close>, is \<open>double_sub\<close>: the exact difference rounded to the nearest
    double, ties to even. \<^verbatim>\<open>std::numeric_limits<double>::max()\<close> is \<open>double_max\<close>.
  \<^item> An \<^verbatim>\<open>OrderNode*\<close> is an address (a slot number of the order pool) and the pool's
    storage is an explicit store \<open>nodes\<close> from addresses to nodes: the lookup table and
    the level queues both hold addresses of the same nodes.
  \<^item> A \<^verbatim>\<open>std::map<double, Level*, Cmp>\<close> is an association list kept in the order of
    its comparator, so that iteration is a walk along the list. Each \<^verbatim>\<open>Level*\<close> is
    owned by exactly one map entry and never aliased, so the level is stored in the entry
    itself and a write through the pointer is \<open>side_assign\<close>. The pool the levels are
    allocated from is therefore not part of the state.
  \<^item> The snapshot depth, a \<^verbatim>\<open>size_t\<close> chosen by the caller, is a \<open>64 word\<close>. The
    \<^verbatim>\<open>size_t\<close> values the book counts itself (the pool's indices and statistics, the loop
    counter of the snapshot) are natural numbers: they are bounded by the number of nodes and
    levels in memory, far below \<open>2 ^ 64\<close>.
  \<^item> Storage the book allocates for itself (pool blocks, list and map nodes, the hash table)
    is granted. The two \<^verbatim>\<open>reserve\<close> calls of \<^verbatim>\<open>get_snapshot\<close>, whose size the caller
    chooses, can fail and do so by the exceptions of the standard library.
  \<^item> \<^verbatim>\<open>level_iterator\<close> of a node denotes the list cell that holds the node's own
    address in its level's queue; \<^verbatim>\<open>orders.erase(node->level_iterator)\<close> removes
    that cell (\<open>remove1\<close> on the address).
\<close>

type_synonym u64 = "64 word"
type_synonym addr = nat

subsection \<open>Core data structures\<close>

record Order =
  order_id :: u64
  is_buy :: bool
  price :: real
  quantity :: u64
  timestamp_ns :: u64

record PriceLevel =
  pl_price :: real
  pl_total_quantity :: u64

definition double_max :: real where
  "double_max = (2 ^ 53 - 1) * 2 ^ 971"

subsection \<open>Double precision\<close>

text \<open>
  Rounding to the nearest double, ties to even. \<open>binade x\<close> is the largest \<open>k\<close> in
  \<open>1, \<dots>, 2045\<close> with \<open>2 ^ k \<le> \<bar>x\<bar> * 2 ^ 1022\<close>, or 0: the exponent of \<open>x\<close> is
  \<open>k - 1022\<close>, and 0 stands for the subnormal numbers and the first normal binade, which
  share the spacing \<open>2 ^ -1074\<close>. In the binade \<open>k\<close> the doubles are the multiples of
  \<open>2 ^ k / 2 ^ 1074\<close>. A result beyond the largest double, which the machine replaces by
  an infinity, stays a finite number here; it compares with \<open>epsilon\<close> as the infinity does.
\<close>

definition round_even :: "real \<Rightarrow> int" where
  "round_even z =
     (let f = \<lfloor>z\<rfloor>; r = z - of_int f in
      if r < 1 / 2 then f else if r > 1 / 2 then f + 1 else if even f then f else f + 1)"

primrec top_power :: "real \<Rightarrow> nat \<Rightarrow> nat" where
  "top_power s 0 = 0"
| "top_power s (Suc n) = (if 2 ^ Suc n \<le> s then Suc n else top_power s n)"

definition binade :: "real \<Rightarrow> nat" where
  "binade x = top_power (\<bar>x\<bar> * 2 ^ 1022) 2045"

definition double_round :: "real \<Rightarrow> real" where
  "double_round x =
     sgn x * of_int (round_even (\<bar>x\<bar> * 2 ^ 1074 / 2 ^ binade x)) * 2 ^ binade x / 2 ^ 1074"

definition double_sub :: "real \<Rightarrow> real \<Rightarrow> real" where
  "double_sub x y = double_round (x - y)"

subsection \<open>MemoryPool\<close>

text \<open>
  Slot \<open>i\<close> of the \<open>k\<close>-th allocated block (counting from 0) has address
  \<open>k * BlockSize + i\<close>; \<open>head_block\<close> is always the block allocated last.
\<close>

record MemoryPool =
  blocks_allocated :: nat
  current_index :: nat
  free_list :: "addr list"
  total_allocations :: nat
  total_deallocations :: nat

definition BlockSize :: nat where
  "BlockSize = 1024"

definition allocate_block :: "MemoryPool \<Rightarrow> MemoryPool" where
  "allocate_block p = p\<lparr>current_index := 0, blocks_allocated := blocks_allocated p + 1\<rparr>"

definition MemoryPool_init :: MemoryPool where
  "MemoryPool_init =
     allocate_block \<lparr>blocks_allocated = 0, current_index = BlockSize, free_list = [],
                     total_allocations = 0, total_deallocations = 0\<rparr>"

definition allocate :: "MemoryPool \<Rightarrow> addr \<times> MemoryPool" where
  "allocate p0 =
     (let p = p0\<lparr>total_allocations := total_allocations p0 + 1\<rparr> in
      if free_list p \<noteq> [] then (last (free_list p), p\<lparr>free_list := butlast (free_list p)\<rparr>)
      else
        let p1 = (if current_index p \<ge> BlockSize then allocate_block p else p) in
        ((blocks_allocated p1 - 1) * BlockSize + current_index p1,
         p1\<lparr>current_index := current_index p1 + 1\<rparr>))"

text \<open>
  The pointer handed to \<^verbatim>\<open>deallocate\<close> always comes from the lookup table, so the
  null test of the source is true. The destructor of \<^verbatim>\<open>OrderNode\<close> does nothing: the
  slot keeps its contents until a node is constructed in it again.
\<close>

definition deallocate :: "MemoryPool \<Rightarrow> addr \<Rightarrow> MemoryPool" where
  "deallocate p a =
     p\<lparr>total_deallocations := total_deallocations p + 1, free_list := free_list p @ [a]\<rparr>"

subsection \<open>OrderNode and Level\<close>

record OrderNode =
  order :: Order
  original_price :: real

definition OrderNode_init :: "Order \<Rightarrow> OrderNode" where
  "OrderNode_init ord = \<lparr>order = ord, original_price = price ord\<rparr>"

record Level =
  level_price :: real
  total_quantity :: u64
  orders :: "addr list"
  order_count :: u64

definition Level_init :: "real \<Rightarrow> Level" where
  "Level_init p = \<lparr>level_price = p, total_quantity = 0, orders = [], order_count = 0\<rparr>"

definition Level_add_order :: "(addr \<Rightarrow> OrderNode) \<Rightarrow> Level \<Rightarrow> addr \<Rightarrow> Level" where
  "Level_add_order ns l a =
     l\<lparr>orders := orders l @ [a],
       total_quantity := total_quantity l + quantity (order (ns a)),
       order_count := order_count l + 1\<rparr>"

definition Level_remove_order :: "(addr \<Rightarrow> OrderNode) \<Rightarrow> Level \<Rightarrow> addr \<Rightarrow> Level" where
  "Level_remove_order ns l a =
     l\<lparr>orders := remove1 a (orders l),
       total_quantity := total_quantity l - quantity (order (ns a)),
       order_count := order_count l - 1\<rparr>"

definition Level_update_quantity ::
  "(addr \<Rightarrow> OrderNode) \<Rightarrow> Level \<Rightarrow> addr \<Rightarrow> u64 \<Rightarrow> Level \<times> (addr \<Rightarrow> OrderNode)" where
  "Level_update_quantity ns l a new_quantity =
     (l\<lparr>total_quantity := total_quantity l - quantity (order (ns a)) + new_quantity\<rparr>,
      ns(a := (ns a)\<lparr>order := (order (ns a))\<lparr>quantity := new_quantity\<rparr>\<rparr>))"

definition Level_is_empty :: "Level \<Rightarrow> bool" where
  "Level_is_empty l = (orders l = [])"

subsection \<open>One side of the ladder\<close>

type_synonym side = "(real \<times> Level) list"

text \<open>
  \<open>key_before desc\<close> is the map's comparator: \<^verbatim>\<open>std::greater<double>\<close> for the bid side
  (\<open>desc = True\<close>) and \<^verbatim>\<open>std::less<double>\<close> for the ask side.
\<close>

definition key_before :: "bool \<Rightarrow> real \<Rightarrow> real \<Rightarrow> bool" where
  "key_before desc x y = (if desc then y < x else x < y)"

definition side_find :: "side \<Rightarrow> real \<Rightarrow> Level option" where
  "side_find s p = map_of s p"

fun side_emplace :: "bool \<Rightarrow> real \<Rightarrow> Level \<Rightarrow> side \<Rightarrow> side" where
  "side_emplace desc p l [] = [(p, l)]"
| "side_emplace desc p l ((k, v) # r) =
     (if key_before desc p k then (p, l) # (k, v) # r
      else if key_before desc k p then (k, v) # side_emplace desc p l r
      else (k, v) # r)"

definition side_erase :: "real \<Rightarrow> side \<Rightarrow> side" where
  "side_erase p s = filter (\<lambda>kv. fst kv \<noteq> p) s"

definition side_assign :: "real \<Rightarrow> Level \<Rightarrow> side \<Rightarrow> side" where
  "side_assign p l s = map (\<lambda>kv. if fst kv = p then (p, l) else kv) s"

definition add_to_side :: "bool \<Rightarrow> side \<Rightarrow> (addr \<Rightarrow> OrderNode) \<Rightarrow> addr \<Rightarrow> side" where
  "add_to_side desc s ns a =
     (let p = price (order (ns a)) in
      case side_find s p of
        None \<Rightarrow>
          side_assign p (Level_add_order ns (Level_init p) a)
            (side_emplace desc p (Level_init p) s)
      | Some level \<Rightarrow> side_assign p (Level_add_order ns level a) s)"

definition remove_from_side :: "side \<Rightarrow> (addr \<Rightarrow> OrderNode) \<Rightarrow> addr \<Rightarrow> side" where
  "remove_from_side s ns a =
     (let p = price (order (ns a)) in
      case side_find s p of
        None \<Rightarrow> s
      | Some level \<Rightarrow>
          let level' = Level_remove_order ns level a in
          if Level_is_empty level' then side_erase p s else side_assign p level' s)"

definition update_quantity_in_place ::
  "side \<Rightarrow> (addr \<Rightarrow> OrderNode) \<Rightarrow> addr \<Rightarrow> u64 \<Rightarrow> side \<times> (addr \<Rightarrow> OrderNode)" where
  "update_quantity_in_place s ns a new_quantity =
     (let p = price (order (ns a)) in
      case side_find s p of
        None \<Rightarrow> (s, ns)
      | Some level \<Rightarrow>
          let (level', ns') = Level_update_quantity ns level a new_quantity in
          (side_assign p level' s, ns'))"

subsection \<open>OrderBook\<close>

record OrderBook =
  order_pool :: MemoryPool
  nodes :: "addr \<Rightarrow> OrderNode"
  bid_levels :: side
  ask_levels :: side
  order_lookup :: "u64 \<Rightarrow> addr option"
  total_orders :: u64
  total_cancels :: u64
  total_amends :: u64
  total_snapshots :: u64
  cached_best_bid :: real
  cached_best_ask :: real
  cache_valid :: bool

text \<open>
  A fresh book. The pool's storage is raw memory until a node is constructed in it; the
  model fills it with a fixed node that no operation reads before overwriting.
\<close>

definition raw_node :: OrderNode where
  "raw_node = OrderNode_init
     \<lparr>order_id = 0, is_buy = False, price = 0, quantity = 0, timestamp_ns = 0\<rparr>"

definition new_book :: OrderBook where
  "new_book =
     \<lparr>order_pool = MemoryPool_init, nodes = (\<lambda>_. raw_node), bid_levels = [], ask_levels = [],
      order_lookup = (\<lambda>_. None), total_orders = 0, total_cancels = 0, total_amends = 0,
      total_snapshots = 0, cached_best_bid = 0, cached_best_ask = 0, cache_valid = False\<rparr>"

text \<open>\<^verbatim>\<open>order_lookup.emplace(id, node)\<close> inserts only when the key is absent.\<close>

definition lookup_emplace :: "(u64 \<Rightarrow> addr option) \<Rightarrow> u64 \<Rightarrow> addr \<Rightarrow> (u64 \<Rightarrow> addr option)" where
  "lookup_emplace m k a = (case m k of None \<Rightarrow> m(k \<mapsto> a) | Some _ \<Rightarrow> m)"

definition add_order :: "OrderBook \<Rightarrow> Order \<Rightarrow> OrderBook" where
  "add_order b ord =
     (let (a, pool) = allocate (order_pool b);
          b1 = b\<lparr>order_pool := pool, nodes := (nodes b)(a := OrderNode_init ord)\<rparr>;
          b2 = b1\<lparr>order_lookup := lookup_emplace (order_lookup b1) (order_id ord) a\<rparr>;
          b3 = b2\<lparr>cache_valid := False\<rparr>;
          b4 = (if is_buy ord
                then b3\<lparr>bid_levels := add_to_side True (bid_levels b3) (nodes b3) a\<rparr>
                else b3\<lparr>ask_levels := add_to_side False (ask_levels b3) (nodes b3) a\<rparr>)
      in b4\<lparr>total_orders := total_orders b4 + 1\<rparr>)"

definition cancel_order :: "OrderBook \<Rightarrow> u64 \<Rightarrow> bool \<times> OrderBook" where
  "cancel_order b oid =
     (case order_lookup b oid of
        None \<Rightarrow> (False, b)
      | Some a \<Rightarrow>
          let b1 = b\<lparr>cache_valid := False\<rparr>;
              b2 = (if is_buy (order (nodes b1 a))
                    then b1\<lparr>bid_levels := remove_from_side (bid_levels b1) (nodes b1) a\<rparr>
                    else b1\<lparr>ask_levels := remove_from_side (ask_levels b1) (nodes b1) a\<rparr>);
              b3 = b2\<lparr>order_lookup := (order_lookup b2)(oid := None)\<rparr>;
              b4 = b3\<lparr>order_pool := deallocate (order_pool b3) a\<rparr>
          in (True, b4\<lparr>total_cancels := total_cancels b4 + 1\<rparr>))"

text \<open>
  \<^verbatim>\<open>constexpr double epsilon = 1e-9\<close>: the double nearest to \<open>1 / 10 ^ 9\<close>, which is
  slightly larger than it.
\<close>

definition epsilon :: real where
  "epsilon = 4835703278458517 / 2 ^ 82"

text \<open>
  \<open>now\<close> is the value read from \<^verbatim>\<open>high_resolution_clock::now()\<close> on the price-change
  path.
\<close>

definition amend_order :: "OrderBook \<Rightarrow> u64 \<Rightarrow> real \<Rightarrow> u64 \<Rightarrow> u64 \<Rightarrow> bool \<times> OrderBook" where
  "amend_order b oid new_price new_quantity now =
     (case order_lookup b oid of
        None \<Rightarrow> (False, b)
      | Some a \<Rightarrow>
          let b1 = b\<lparr>cache_valid := False\<rparr>;
              b2 =
                (if \<bar>double_sub (price (order (nodes b1 a))) new_price\<bar> > epsilon then
                   let new_order = (order (nodes b1 a))
                         \<lparr>price := new_price, quantity := new_quantity, timestamp_ns := now\<rparr>
                   in add_order (snd (cancel_order b1 oid)) new_order
                 else if is_buy (order (nodes b1 a)) then
                   let (s, ns) = update_quantity_in_place (bid_levels b1) (nodes b1) a new_quantity
                   in b1\<lparr>bid_levels := s, nodes := ns\<rparr>
                 else
                   let (s, ns) = update_quantity_in_place (ask_levels b1) (nodes b1) a new_quantity
                   in b1\<lparr>ask_levels := s, nodes := ns\<rparr>)
          in (True, b2\<lparr>total_amends := total_amends b2 + 1\<rparr>))"

text \<open>
  The range-for of \<^verbatim>\<open>get_snapshot\<close>: \<^verbatim>\<open>if (count++ >= depth) break;\<close> compares the
  count before the increment.
\<close>

fun snapshot_loop :: "nat \<Rightarrow> nat \<Rightarrow> side \<Rightarrow> PriceLevel list \<Rightarrow> PriceLevel list" where
  "snapshot_loop depth count [] out = out"
| "snapshot_loop depth count ((p, level) # rest) out =
     (if count \<ge> depth then out
      else snapshot_loop depth (count + 1) rest
             (out @ [\<lparr>pl_price = p, pl_total_quantity = total_quantity level\<rparr>]))"

definition vector_clear :: "PriceLevel list \<Rightarrow> PriceLevel list" where
  "vector_clear v = []"

text \<open>
  \<^verbatim>\<open>std::vector<PriceLevel>::reserve(n)\<close> first compares \<open>n\<close> with \<^verbatim>\<open>max_size()\<close> and
  throws \<^verbatim>\<open>std::length_error\<close> when it is larger; otherwise it obtains storage when the
  capacity is too small, and \<^verbatim>\<open>std::bad_alloc\<close> leaves it when the allocator refuses.
  \<open>granted\<close> is the answer of the allocator. \<open>vector_max_size\<close> is the value of
  \<^verbatim>\<open>max_size()\<close> in the library of the compiler the file names (g++, 64-bit target):
  \<^verbatim>\<open>PTRDIFF_MAX / sizeof(PriceLevel)\<close>, a \<^verbatim>\<open>PriceLevel\<close> being 16 bytes.
\<close>

datatype error = Length_error | Bad_alloc

definition vector_max_size :: nat where
  "vector_max_size = 2 ^ 59 - 1"

definition vector_reserve :: "u64 \<Rightarrow> bool \<Rightarrow> error + unit" where
  "vector_reserve n granted =
     (if unat n > vector_max_size then Inl Length_error
      else if \<not> granted then Inl Bad_alloc
      else Inr ())"

text \<open>
  The result of \<open>get_snapshot\<close> is how the call ends (returning, or the exception that leaves
  it), the two buffers of the caller and the book. An exception of either
  \<^verbatim>\<open>reserve\<close> leaves the call after the counter is incremented and both buffers are
  cleared, before any level is copied.
\<close>

definition get_snapshot ::
  "OrderBook \<Rightarrow> u64 \<Rightarrow> PriceLevel list \<Rightarrow> PriceLevel list \<Rightarrow> bool \<Rightarrow> bool
     \<Rightarrow> (error + unit) \<times> (PriceLevel list \<times> PriceLevel list) \<times> OrderBook" where
  "get_snapshot b depth bids asks bids_granted asks_granted =
     (let b1 = b\<lparr>total_snapshots := total_snapshots b + 1\<rparr>;
          bids1 = vector_clear bids;
          asks1 = vector_clear asks
      in case vector_reserve depth bids_granted of
           Inl e \<Rightarrow> (Inl e, (bids1, asks1), b1)
         | Inr _ \<Rightarrow>
             (case vector_reserve depth asks_granted of
                Inl e \<Rightarrow> (Inl e, (bids1, asks1), b1)
              | Inr _ \<Rightarrow>
                  (Inr (),
                   (snapshot_loop (unat depth) 0 (bid_levels b1) bids1,
                    snapshot_loop (unat depth) 0 (ask_levels b1) asks1),
                   b1)))"

definition get_best_prices :: "OrderBook \<Rightarrow> (real \<times> real) \<times> OrderBook" where
  "get_best_prices b =
     (let b1 = (if \<not> cache_valid b then
                  b\<lparr>cached_best_bid :=
                      (case bid_levels b of [] \<Rightarrow> 0 | kv # _ \<Rightarrow> fst kv),
                    cached_best_ask :=
                      (case ask_levels b of [] \<Rightarrow> double_max | kv # _ \<Rightarrow> fst kv),
                    cache_valid := True\<rparr>
                else b)
      in ((cached_best_bid b1, cached_best_ask b1), b1))"

definition can_match :: "OrderBook \<Rightarrow> bool \<times> OrderBook" where
  "can_match b =
     (if bid_levels b = [] \<or> ask_levels b = [] then (False, b)
      else let ((best_bid, best_ask), b1) = get_best_prices b in (best_bid \<ge> best_ask, b1))"

subsection \<open>Sequences of public operations\<close>

text \<open>
  The book an operation leaves behind. For a snapshot it is the same however the call ends,
  so the answers of the allocator do not appear in \<open>Op\<close>.
\<close>

datatype Op =
    Add Order
  | Cancel u64
  | Amend u64 real u64 u64
  | Snapshot u64
  | BestPrices

fun apply_op :: "OrderBook \<Rightarrow> Op \<Rightarrow> OrderBook" where
  "apply_op b (Add ord) = add_order b ord"
| "apply_op b (Cancel oid) = snd (cancel_order b oid)"
| "apply_op b (Amend oid p q now) = snd (amend_order b oid p q now)"
| "apply_op b (Snapshot depth) = snd (snd (get_snapshot b depth [] [] True True))"
| "apply_op b BestPrices = snd (get_best_prices b)"

definition run_ops :: "OrderBook \<Rightarrow> Op list \<Rightarrow> OrderBook" where
  "run_ops b ops = foldl apply_op b ops"

section \<open>Invariants of the book\<close>

text \<open>
  The predicates below describe the states the public operations keep the book in. They are
  not part of the program; \<open>wf_book\<close> is shown to hold of \<open>new_book\<close> and to be preserved by
  every public operation.
\<close>

definition sorted_side :: "bool \<Rightarrow> side \<Rightarrow> bool" where
  "sorted_side desc s = sorted_wrt (key_before desc) (map fst s)"

definition side_addrs :: "side \<Rightarrow> addr list" where
  "side_addrs s = concat (map (\<lambda>kv. orders (snd kv)) s)"

definition side_fifos :: "side \<Rightarrow> (real \<times> addr list) list" where
  "side_fifos s = map (\<lambda>kv. (fst kv, orders (snd kv))) s"

definition fifo_quantity :: "(addr \<Rightarrow> OrderNode) \<Rightarrow> addr list \<Rightarrow> u64" where
  "fifo_quantity ns xs = sum_list (map (\<lambda>a. quantity (order (ns a))) xs)"

definition fifo_at :: "(addr \<Rightarrow> OrderNode) \<Rightarrow> bool \<Rightarrow> real \<Rightarrow> addr list \<Rightarrow> bool" where
  "fifo_at ns buy k xs =
     (\<forall>a \<in> set xs. price (order (ns a)) = k \<and> is_buy (order (ns a)) = buy)"

definition level_ok :: "(addr \<Rightarrow> OrderNode) \<Rightarrow> bool \<Rightarrow> real \<times> Level \<Rightarrow> bool" where
  "level_ok ns buy kv =
     (level_price (snd kv) = fst kv \<and> orders (snd kv) \<noteq> [] \<and>
      total_quantity (snd kv) = fifo_quantity ns (orders (snd kv)) \<and>
      order_count (snd kv) = of_nat (length (orders (snd kv))) \<and>
      fifo_at ns buy (fst kv) (orders (snd kv)))"

definition side_ok :: "(addr \<Rightarrow> OrderNode) \<Rightarrow> bool \<Rightarrow> side \<Rightarrow> bool" where
  "side_ok ns desc s = (sorted_side desc s \<and> (\<forall>kv \<in> set s. level_ok ns desc kv))"

definition pool_bound :: "MemoryPool \<Rightarrow> nat" where
  "pool_bound p = (blocks_allocated p - 1) * BlockSize + current_index p"

definition pool_ok :: "MemoryPool \<Rightarrow> addr set \<Rightarrow> bool" where
  "pool_ok p live =
     (1 \<le> blocks_allocated p \<and> current_index p \<le> BlockSize \<and> distinct (free_list p) \<and>
      set (free_list p) \<inter> live = {} \<and>
      (\<forall>a \<in> set (free_list p) \<union> live. a < pool_bound p))"

definition live_addrs :: "OrderBook \<Rightarrow> addr list" where
  "live_addrs b = side_addrs (bid_levels b) @ side_addrs (ask_levels b)"

definition lookup_ok :: "OrderBook \<Rightarrow> bool" where
  "lookup_ok b =
     (\<forall>i a. order_lookup b i = Some a \<longrightarrow>
        a \<in> set (live_addrs b) \<and> order_id (order (nodes b a)) = i)"

definition front_price :: "real \<Rightarrow> side \<Rightarrow> real" where
  "front_price d s = (case s of [] \<Rightarrow> d | kv # _ \<Rightarrow> fst kv)"

definition cache_ok :: "OrderBook \<Rightarrow> bool" where
  "cache_ok b =
     (cache_valid b \<longrightarrow>
        cached_best_bid b = front_price 0 (bid_levels b) \<and>
        cached_best_ask b = front_price double_max (ask_levels b))"

definition wf_book :: "OrderBook \<Rightarrow> bool" where
  "wf_book b =
     (side_ok (nodes b) True (bid_levels b) \<and> side_ok (nodes b) False (ask_levels b) \<and>
      distinct (live_addrs b) \<and> pool_ok (order_pool b) (set (live_addrs b)) \<and>
      lookup_ok b \<and> cache_ok b)"

text \<open>The address \<open>add_order\<close> constructs its node at, and the order a price amend re-adds.\<close>

definition new_addr :: "OrderBook \<Rightarrow> addr" where
  "new_addr b = fst (allocate (order_pool b))"

definition amended :: "Order \<Rightarrow> real \<Rightarrow> u64 \<Rightarrow> u64 \<Rightarrow> Order" where
  "amended ord p q now = ord\<lparr>price := p, quantity := q, timestamp_ns := now\<rparr>"

definition book_side :: "OrderBook \<Rightarrow> bool \<Rightarrow> side" where
  "book_side b buy = (if buy then bid_levels b else ask_levels b)"

text \<open>What a snapshot shows of one ladder entry.\<close>

definition level_view :: "real \<times> Level \<Rightarrow> PriceLevel" where
  "level_view kv = \<lparr>pl_price = fst kv, pl_total_quantity = total_quantity (snd kv)\<rparr>"

text \<open>
  The per-level aggregates, written out over the store. The sum is taken in \<open>u64\<close>, the
  type the source accumulates it in; read as a natural number the total is the sum of the
  quantities modulo \<open>2 ^ 64\<close>.
\<close>

definition levels_consistent :: "OrderBook \<Rightarrow> bool" where
  "levels_consistent b =
     (\<forall>kv \<in> set (bid_levels b) \<union> set (ask_levels b).
        orders (snd kv) \<noteq> [] \<and>
        total_quantity (snd kv) =
          sum_list (map (\<lambda>a. quantity (order (nodes b a))) (orders (snd kv))) \<and>
        unat (total_quantity (snd kv)) =
          sum_list (map (\<lambda>a. unat (quantity (order (nodes b a)))) (orders (snd kv))) mod 2 ^ 64 \<and>
        order_count (snd kv) = of_nat (length (orders (snd kv))))"

text \<open>The prices of the nodes resting on one side.\<close>

definition resting_prices :: "OrderBook \<Rightarrow> bool \<Rightarrow> real set" where
  "resting_prices b buy =
     (\<lambda>a. price (order (nodes b a))) ` set (side_addrs (book_side b buy))"

subsection \<open>Vocabulary of the claims\<close>



text \<open>The order ID an operation is about, if any.\<close>

fun names :: "Op \<Rightarrow> u64 \<Rightarrow> bool" where
  "names (Add ord) i = (order_id ord = i)"
| "names (Cancel j) i = (j = i)"
| "names (Amend j p q now) i = (j = i)"
| "names (Snapshot d) i = False"
| "names BestPrices i = False"

text \<open>\<open>precedes xs a a'\<close>: the first occurrence of \<open>a\<close> in \<open>xs\<close> has \<open>a'\<close> behind it.\<close>

fun precedes :: "addr list \<Rightarrow> addr \<Rightarrow> addr \<Rightarrow> bool" where
  "precedes [] a a' = False"
| "precedes (x # xs) a a' = (if x = a then a' \<in> set xs else precedes xs a a')"

text \<open>The FIFO of the level at a price, empty when the side has no such level.\<close>

definition fifo_of :: "side \<Rightarrow> real \<Rightarrow> addr list" where
  "fifo_of s k = (case side_find s k of None \<Rightarrow> [] | Some l \<Rightarrow> orders l)"

definition book_fifo :: "OrderBook \<Rightarrow> bool \<Rightarrow> real \<Rightarrow> addr list" where
  "book_fifo b buy k = fifo_of (book_side b buy) k"

text \<open>
  \<open>keeps b b' a\<close>: from \<open>b\<close> to \<open>b'\<close> the node at \<open>a\<close> is untouched and stays queued
  where it was.
\<close>

definition keeps :: "OrderBook \<Rightarrow> OrderBook \<Rightarrow> addr \<Rightarrow> bool" where
  "keeps b b' a =
     (nodes b' a = nodes b a \<and> a \<in> set (live_addrs b') \<and>
      (\<forall>buy k. a \<in> set (book_fifo b buy k) \<longrightarrow> a \<in> set (book_fifo b' buy k)))"

subsection \<open>Concrete books\<close>

definition mk_order :: "u64 \<Rightarrow> bool \<Rightarrow> real \<Rightarrow> u64 \<Rightarrow> Order" where
  "mk_order i buy p q =
     \<lparr>order_id = i, is_buy = buy, price = p, quantity = q, timestamp_ns = 0\<rparr>"

text \<open>A book holding the single bid 1.\<close>

definition book1 :: OrderBook where
  "book1 = add_order new_book (mk_order 1 True 100 100)"

text \<open>Three bids on two levels and two asks.\<close>

definition book5 :: OrderBook where
  "book5 = run_ops new_book
     [Add (mk_order 1 True 100 100), Add (mk_order 2 True 99 200),
      Add (mk_order 3 True 100 50), Add (mk_order 4 False 101 70),
      Add (mk_order 5 False 102 80)]"

text \<open>Two bids at the same price; the one added first carries the later timestamp.\<close>

definition order_A :: Order where
  "order_A = (mk_order 1 True 100 100)\<lparr>timestamp_ns := 50\<rparr>"

definition order_B :: Order where
  "order_B = (mk_order 3 True 100 40)\<lparr>timestamp_ns := 10\<rparr>"

definition book_AB :: OrderBook where
  "book_AB =
     run_ops
       (add_order (run_ops (add_order new_book order_A) [Add (mk_order 2 True 99 10), Cancel 2])
          order_B)
       [Amend 7 1 1 1, Snapshot 3]"


text \<open>A single bid at the price \<open>epsilon\<close>, the double written \<^verbatim>\<open>1e-9\<close>.\<close>

definition book_tiny :: OrderBook where
  "book_tiny = add_order new_book (mk_order 1 True epsilon 100)"

section \<open>Rounding to double precision\<close>

lemma round_even_cases:
  "round_even z = \<lfloor>z\<rfloor> \<and> z - of_int \<lfloor>z\<rfloor> \<le> 1 / 2 \<or>
   round_even z = \<lfloor>z\<rfloor> + 1 \<and> 1 / 2 \<le> z - of_int \<lfloor>z\<rfloor>"
  unfolding round_even_def Let_def by auto

lemma round_even_ge: "of_int n \<le> z \<Longrightarrow> n \<le> round_even z"
proof -
  assume "of_int n \<le> z"
  then have "n \<le> \<lfloor>z\<rfloor>" by (simp add: le_floor_iff)
  with round_even_cases [of z] show ?thesis by auto
qed

lemma round_even_le: "z \<le> of_int n \<Longrightarrow> round_even z \<le> n"
proof (cases "z = of_int n")
  case True
  then show ?thesis by (simp add: round_even_def)
next
  case False
  assume "z \<le> of_int n"
  with False have "z < of_int n" by simp
  then have "\<lfloor>z\<rfloor> < n" by (simp add: floor_less_iff)
  with round_even_cases [of z] show ?thesis by auto
qed

lemma round_even_gt_odd:
  assumes "odd m"
  shows "m < round_even z \<longleftrightarrow> of_int m + 1 / 2 \<le> z"
proof
  assume h: "of_int m + 1 / 2 \<le> z"
  show "m < round_even z"
  proof (cases "of_int (m + 1) \<le> z")
    case True
    from round_even_ge [OF this] show ?thesis by simp
  next
    case False
    with h have "of_int m \<le> z" "z < of_int m + 1" by simp_all
    then have f: "\<lfloor>z\<rfloor> = m" by (simp add: floor_unique)
    with h assms show ?thesis by (auto simp: round_even_def Let_def)
  qed
next
  assume h: "m < round_even z"
  show "of_int m + 1 / 2 \<le> z"
  proof (rule ccontr)
    assume "\<not> of_int m + 1 / 2 \<le> z"
    then have lt: "z < of_int m + 1 / 2" by simp
    then have "z < of_int (m + 1)" by simp
    then have "\<lfloor>z\<rfloor> < m + 1" unfolding floor_less_iff .
    then have fl: "\<lfloor>z\<rfloor> \<le> m" by simp
    show False
    proof (cases "\<lfloor>z\<rfloor> = m")
      case True
      with lt have "round_even z = m" by (simp add: round_even_def Let_def)
      with h show False by simp
    next
      case False
      with fl have "\<lfloor>z\<rfloor> + 1 \<le> m" by simp
      with round_even_cases [of z] h show False by auto
    qed
  qed
qed

lemma top_power_le: "top_power s n \<le> n"
  by (induction n) auto

lemma top_power_reached: "1 \<le> top_power s n \<Longrightarrow> 2 ^ top_power s n \<le> s"
  by (induction n) (auto split: if_splits)

lemma top_power_greatest: "1 \<le> i \<Longrightarrow> i \<le> n \<Longrightarrow> 2 ^ i \<le> s \<Longrightarrow> i \<le> top_power s n"
proof (induction n)
  case 0
  then show ?case by simp
next
  case (Suc n)
  show ?case
  proof (cases "2 ^ Suc n \<le> s")
    case True
    with Suc.prems show ?thesis by simp
  next
    case False
    with Suc.prems have "i \<noteq> Suc n" by auto
    with Suc.prems have "i \<le> n" by simp
    with Suc False show ?thesis by simp
  qed
qed

lemma binade_le: "binade x \<le> 2045"
  unfolding binade_def by (rule top_power_le)

lemma binade_reached: "1 \<le> binade x \<Longrightarrow> 2 ^ binade x \<le> \<bar>x\<bar> * 2 ^ 1022"
  unfolding binade_def by (rule top_power_reached)

lemma binade_greatest:
  "1 \<le> i \<Longrightarrow> i \<le> 2045 \<Longrightarrow> 2 ^ i \<le> \<bar>x\<bar> * 2 ^ 1022 \<Longrightarrow> i \<le> binade x"
  unfolding binade_def by (rule top_power_greatest)

lemma binade_above:
  assumes "binade x < 2045"
  shows "\<bar>x\<bar> * 2 ^ 1022 < 2 ^ Suc (binade x)"
proof (rule ccontr)
  assume "\<not> \<bar>x\<bar> * 2 ^ 1022 < 2 ^ Suc (binade x)"
  then have "2 ^ Suc (binade x) \<le> \<bar>x\<bar> * 2 ^ 1022" by simp
  with assms have "Suc (binade x) \<le> binade x"
    by (intro binade_greatest) simp_all
  then show False by simp
qed

lemma round_even_nonneg: "0 \<le> z \<Longrightarrow> 0 \<le> round_even z"
  using round_even_ge [of 0 z] by simp

lemma abs_double_round:
  "\<bar>double_round x\<bar> =
     (if x = 0 then 0
      else of_int (round_even (\<bar>x\<bar> * 2 ^ 1074 / 2 ^ binade x)) * 2 ^ binade x / 2 ^ 1074)"
proof (cases "x = 0")
  case True
  then show ?thesis by (simp add: double_round_def)
next
  case False
  have "0 \<le> round_even (\<bar>x\<bar> * 2 ^ 1074 / 2 ^ binade x)"
    by (rule round_even_nonneg) simp
  with False show ?thesis
    by (simp add: double_round_def abs_mult abs_sgn_eq)
qed

lemma double_round_gt_epsilon:
  "\<bar>double_round y\<bar> > epsilon \<longleftrightarrow> \<bar>y\<bar> \<ge> 9671406556917035 / 2 ^ 83"
proof (cases "y = 0")
  case True
  then show ?thesis by (simp add: double_round_def epsilon_def)
next
  case False
  define k where "k = binade y"
  define R where "R = round_even (\<bar>y\<bar> * 2 ^ 1074 / 2 ^ k)"
  from False have dr: "\<bar>double_round y\<bar> = of_int R * 2 ^ k / 2 ^ 1074"
    by (simp add: abs_double_round k_def R_def)
  consider "k = 992" | "993 \<le> k" | "k \<le> 991" by linarith
  then show ?thesis
  proof cases
    case 1
    have z: "\<bar>y\<bar> * 2 ^ 1074 / 2 ^ 992 = \<bar>y\<bar> * 2 ^ 82" by simp
    have "epsilon < of_int R * 2 ^ 992 / 2 ^ 1074 \<longleftrightarrow> (4835703278458517::int) < R"
      by (simp add: epsilon_def field_simps)
    also have "\<dots> \<longleftrightarrow> of_int 4835703278458517 + 1 / 2 \<le> \<bar>y\<bar> * 2 ^ 82"
      unfolding R_def 1 z by (rule round_even_gt_odd) simp
    also have "\<dots> \<longleftrightarrow> 9671406556917035 / 2 ^ 83 \<le> \<bar>y\<bar>"
      by (simp add: field_simps)
    finally show ?thesis by (simp add: dr 1)
  next
    case 2
    then have k1: "1 \<le> binade y" by (simp add: k_def)
    from binade_reached [OF k1] have lo: "2 ^ k \<le> \<bar>y\<bar> * 2 ^ 1022" by (simp add: k_def)
    from 2 have p: "(2::real) ^ 993 \<le> 2 ^ k" by (intro power_increasing) simp_all
    have "of_int (2 ^ 52) \<le> \<bar>y\<bar> * 2 ^ 1074 / 2 ^ k"
    proof -
      have "(2::real) ^ 52 * 2 ^ k \<le> \<bar>y\<bar> * 2 ^ 1022 * 2 ^ 52" using lo by simp
      then show ?thesis by (simp add: field_simps)
    qed
    from round_even_ge [OF this] have "2 ^ 52 \<le> R" by (simp add: R_def)
    then have "(2::real) ^ 52 \<le> of_int R" by (metis of_int_le_iff of_int_numeral of_int_power)
    then have "(2::real) ^ 52 * 2 ^ k / 2 ^ 1074 \<le> of_int R * 2 ^ k / 2 ^ 1074"
      by (simp add: divide_le_cancel)
    moreover have "(2::real) ^ 52 * 2 ^ 993 / 2 ^ 1074 \<le> 2 ^ 52 * 2 ^ k / 2 ^ 1074"
      using p by (simp add: divide_le_cancel)
    moreover have "epsilon < (2::real) ^ 52 * 2 ^ 993 / 2 ^ 1074" by (simp add: epsilon_def)
    ultimately have l: "epsilon < \<bar>double_round y\<bar>" unfolding dr by linarith
    have "(2::real) ^ 993 / 2 ^ 1022 \<le> \<bar>y\<bar>" using lo p by (simp add: field_simps)
    moreover have "(9671406556917035::real) / 2 ^ 83 \<le> 2 ^ 993 / 2 ^ 1022" by simp
    ultimately have "9671406556917035 / 2 ^ 83 \<le> \<bar>y\<bar>" by linarith
    with l show ?thesis by simp
  next
    case 3
    then have "binade y < 2045" by (simp add: k_def)
    from binade_above [OF this] have hi: "\<bar>y\<bar> * 2 ^ 1022 < 2 ^ Suc k" by (simp add: k_def)
    from 3 have p: "(2::real) ^ Suc k \<le> 2 ^ 992" by (intro power_increasing) simp_all
    have "\<bar>y\<bar> * 2 ^ 1074 / 2 ^ k \<le> of_int (2 ^ 53)"
    proof -
      have "\<bar>y\<bar> * 2 ^ 1022 * 2 ^ 52 \<le> 2 ^ Suc k * 2 ^ 52" using hi by simp
      then show ?thesis by (simp add: field_simps)
    qed
    from round_even_le [OF this] have "R \<le> 2 ^ 53" by (simp add: R_def)
    then have "of_int R \<le> (2::real) ^ 53" by (metis of_int_le_iff of_int_numeral of_int_power)
    then have "of_int R * 2 ^ k / 2 ^ 1074 \<le> (2::real) ^ 53 * 2 ^ k / 2 ^ 1074"
      by (simp add: divide_le_cancel)
    moreover have "(2::real) ^ 53 * 2 ^ k / 2 ^ 1074 \<le> 2 ^ 52 * 2 ^ 992 / 2 ^ 1074"
      using p by (simp add: divide_le_cancel)
    moreover have "(2::real) ^ 52 * 2 ^ 992 / 2 ^ 1074 \<le> epsilon" by (simp add: epsilon_def)
    ultimately have l: "\<not> epsilon < \<bar>double_round y\<bar>" unfolding dr by linarith
    have "\<bar>y\<bar> < 2 ^ 992 / 2 ^ 1022" using hi p by (simp add: field_simps)
    moreover have "(2::real) ^ 992 / 2 ^ 1022 < 9671406556917035 / 2 ^ 83" by simp
    ultimately have "\<not> 9671406556917035 / 2 ^ 83 \<le> \<bar>y\<bar>" by linarith
    with l show ?thesis by simp
  qed
qed



text \<open>
  The test of \<^verbatim>\<open>amend_order\<close> in exact terms: the rounded difference exceeds the double
  \<open>1e-9\<close> exactly when the difference reaches the midpoint between that double and the
  next one.
\<close>

lemma price_test:
  "epsilon < \<bar>double_sub x y\<bar> \<longleftrightarrow> 9671406556917035 / 2 ^ 83 \<le> \<bar>x - y\<bar>"
  using double_round_gt_epsilon [of "x - y"] by (simp add: double_sub_def)

lemma within_spec_epsilon:
  assumes "\<bar>p - x\<bar> \<le> 1 / 10 ^ 9"
  shows "\<not> \<bar>double_sub x p\<bar> > epsilon"
proof -
  have "(1::real) / 10 ^ 9 < 9671406556917035 / 2 ^ 83" by simp
  with assms have "\<not> 9671406556917035 / 2 ^ 83 \<le> \<bar>x - p\<bar>"
    by (simp add: abs_minus_commute)
  then show ?thesis by (simp add: price_test)
qed



section \<open>Properties of the ladder sides and of the invariant\<close>

lemma key_before_irrefl [simp]: "\<not> key_before desc x x"
  by (simp add: key_before_def)

lemma key_before_trans: "key_before desc x y \<Longrightarrow> key_before desc y z \<Longrightarrow> key_before desc x z"
  by (auto simp: key_before_def split: if_splits)

lemma key_before_total: "key_before desc x y \<or> key_before desc y x \<or> x = y"
  by (auto simp: key_before_def)

lemma sorted_side_distinct: "sorted_side desc s \<Longrightarrow> distinct (map fst s)"
  unfolding sorted_side_def
  by (induction s) auto

lemma side_split:
  assumes "distinct (map fst s)" and "map_of s p = Some l"
  shows "\<exists>s1 s2. s = s1 @ (p, l) # s2 \<and> p \<notin> fst ` set s1 \<and> p \<notin> fst ` set s2"
proof -
  from assms(2) have "(p, l) \<in> set s" by (rule map_of_SomeD)
  then obtain s1 s2 where s: "s = s1 @ (p, l) # s2" by (auto dest: split_list)
  with assms(1) show ?thesis by auto
qed

lemma side_assign_absent: "p \<notin> fst ` set s \<Longrightarrow> side_assign p l s = s"
  unfolding side_assign_def by (induction s) auto

lemma side_erase_absent: "p \<notin> fst ` set s \<Longrightarrow> side_erase p s = s"
  unfolding side_erase_def by (induction s) auto

lemma side_assign_split:
  "p \<notin> fst ` set s1 \<Longrightarrow> p \<notin> fst ` set s2 \<Longrightarrow>
   side_assign p l (s1 @ (p, l0) # s2) = s1 @ (p, l) # s2"
  using side_assign_absent [of p s1 l] side_assign_absent [of p s2 l]
  by (simp add: side_assign_def)

lemma side_erase_split:
  "p \<notin> fst ` set s1 \<Longrightarrow> p \<notin> fst ` set s2 \<Longrightarrow> side_erase p (s1 @ (p, l0) # s2) = s1 @ s2"
  using side_erase_absent [of p s1] side_erase_absent [of p s2]
  by (simp add: side_erase_def)

lemma side_find_split:
  "p \<notin> fst ` set s1 \<Longrightarrow> side_find (s1 @ (p, l0) # s2) p = Some l0"
  by (induction s1) (auto simp: side_find_def)

lemma side_find_None: "side_find s p = None \<longleftrightarrow> p \<notin> fst ` set s"
  by (simp add: side_find_def map_of_eq_None_iff)

lemma side_emplace_split:
  "sorted_side desc s \<Longrightarrow> p \<notin> fst ` set s \<Longrightarrow>
   \<exists>s1 s2. s = s1 @ s2 \<and> side_emplace desc p l s = s1 @ (p, l) # s2 \<and>
     sorted_side desc (s1 @ (p, l') # s2)"
proof (induction s)
  case Nil
  then show ?case by (simp add: sorted_side_def)
next
  case (Cons kv s)
  obtain k v where kv: "kv = (k, v)" by (cases kv)
  show ?case
  proof (cases "key_before desc p k")
    case True
    have "sorted_side desc ([] @ (p, l') # kv # s)"
      using Cons.prems(1) True kv
      by (auto simp: sorted_side_def intro: key_before_trans)
    moreover have "side_emplace desc p l (kv # s) = [] @ (p, l) # kv # s"
      using True kv by simp
    ultimately show ?thesis by blast
  next
    case False
    with Cons.prems(2) kv have kp: "key_before desc k p"
      using key_before_total [of desc p k] by auto
    from Cons.prems have "sorted_side desc s" "p \<notin> fst ` set s"
      by (auto simp: sorted_side_def)
    from Cons.IH [OF this] obtain s1 s2 where
      s: "s = s1 @ s2" "side_emplace desc p l s = s1 @ (p, l) # s2"
         "sorted_side desc (s1 @ (p, l') # s2)" by blast
    have "sorted_side desc ((kv # s1) @ (p, l') # s2)"
      using Cons.prems(1) s(1,3) kp kv
      by (auto simp: sorted_side_def)
    moreover have "side_emplace desc p l (kv # s) = (kv # s1) @ (p, l) # s2"
      using False kp kv s(2) by simp
    moreover have "kv # s = (kv # s1) @ s2" using s(1) by simp
    ultimately show ?thesis by blast
  qed
qed

lemma add_to_side_split:
  assumes "sorted_side desc s" and "price (order (ns a)) = p"
  shows "\<exists>s1 s2 l0. add_to_side desc s ns a = s1 @ (p, Level_add_order ns l0 a) # s2 \<and>
           (s = s1 @ (p, l0) # s2 \<or> s = s1 @ s2 \<and> l0 = Level_init p \<and> p \<notin> fst ` set s) \<and>
           p \<notin> fst ` set s1 \<and> p \<notin> fst ` set s2 \<and>
           sorted_side desc (add_to_side desc s ns a)"
proof (cases "side_find s p")
  case None
  then have absent: "p \<notin> fst ` set s" by (simp add: side_find_None)
  from side_emplace_split [OF assms(1) absent, of "Level_init p" "Level_add_order ns (Level_init p) a"]
  obtain s1 s2 where s: "s = s1 @ s2"
      "side_emplace desc p (Level_init p) s = s1 @ (p, Level_init p) # s2"
      "sorted_side desc (s1 @ (p, Level_add_order ns (Level_init p) a) # s2)" by blast
  from absent s(1) have k: "p \<notin> fst ` set s1" "p \<notin> fst ` set s2" by auto
  have "add_to_side desc s ns a = s1 @ (p, Level_add_order ns (Level_init p) a) # s2"
    using None assms(2) s(2) k by (simp add: add_to_side_def side_assign_split)
  with s absent k show ?thesis by auto
next
  case (Some l0)
  from side_split [OF sorted_side_distinct [OF assms(1)]] Some
  obtain s1 s2 where s: "s = s1 @ (p, l0) # s2" "p \<notin> fst ` set s1" "p \<notin> fst ` set s2"
    unfolding side_find_def by blast
  have eq: "add_to_side desc s ns a = s1 @ (p, Level_add_order ns l0 a) # s2"
    using Some assms(2) s by (simp add: add_to_side_def side_assign_split)
  have "map fst (add_to_side desc s ns a) = map fst s"
    using eq s(1) by simp
  with assms(1) have "sorted_side desc (add_to_side desc s ns a)"
    by (simp add: sorted_side_def)
  with eq s show ?thesis by auto
qed

lemma remove_from_side_split:
  assumes "p \<notin> fst ` set s1" and "p \<notin> fst ` set s2" and "price (order (ns a)) = p"
  shows "remove_from_side (s1 @ (p, l0) # s2) ns a =
           (if remove1 a (orders l0) = [] then s1 @ s2
            else s1 @ (p, Level_remove_order ns l0 a) # s2)"
  using assms
  by (simp add: remove_from_side_def side_find_split side_erase_split side_assign_split
      Level_is_empty_def Level_remove_order_def)

lemma update_quantity_in_place_split:
  assumes "p \<notin> fst ` set s1" and "p \<notin> fst ` set s2" and "price (order (ns a)) = p"
  shows "update_quantity_in_place (s1 @ (p, l0) # s2) ns a q =
           (s1 @ (p, fst (Level_update_quantity ns l0 a q)) # s2,
            snd (Level_update_quantity ns l0 a q))"
  using assms
  by (simp add: update_quantity_in_place_def side_find_split side_assign_split split_def Let_def)

lemma side_addrs_append [simp]: "side_addrs (s1 @ s2) = side_addrs s1 @ side_addrs s2"
  by (simp add: side_addrs_def)

lemma side_addrs_Cons [simp]: "side_addrs (kv # s) = orders (snd kv) @ side_addrs s"
  by (simp add: side_addrs_def)

lemma side_addrs_Nil [simp]: "side_addrs [] = []"
  by (simp add: side_addrs_def)

lemma fifo_quantity_upd_other:
  "a \<notin> set xs \<Longrightarrow> fifo_quantity (ns(a := n)) xs = fifo_quantity ns xs"
  unfolding fifo_quantity_def by (induction xs) auto

lemma fifo_at_upd_other:
  "a \<notin> set xs \<Longrightarrow> fifo_at (ns(a := n)) buy k xs = fifo_at ns buy k xs"
  unfolding fifo_at_def by auto

lemma level_ok_upd_other:
  "a \<notin> set (orders (snd kv)) \<Longrightarrow> level_ok (ns(a := n)) buy kv = level_ok ns buy kv"
  by (simp add: level_ok_def fifo_quantity_upd_other fifo_at_upd_other)

lemma in_side_addrs: "a \<in> set (side_addrs s) \<longleftrightarrow> (\<exists>kv \<in> set s. a \<in> set (orders (snd kv)))"
  by (auto simp: side_addrs_def)

lemma side_ok_upd_other:
  "a \<notin> set (side_addrs s) \<Longrightarrow> side_ok (ns(a := n)) desc s = side_ok ns desc s"
  unfolding side_ok_def using level_ok_upd_other [of a _ ns n desc]
  by (auto simp: in_side_addrs)

lemma side_ok_append:
  "side_ok ns desc (s1 @ s2) \<Longrightarrow> (\<forall>kv \<in> set s1. level_ok ns desc kv) \<and> (\<forall>kv \<in> set s2. level_ok ns desc kv)"
  by (simp add: side_ok_def)

lemma side_located:
  assumes "side_ok ns desc s" and "a \<in> set (side_addrs s)"
  shows "\<exists>s1 s2 l0. s = s1 @ (price (order (ns a)), l0) # s2 \<and> a \<in> set (orders l0) \<and>
           price (order (ns a)) \<notin> fst ` set s1 \<and> price (order (ns a)) \<notin> fst ` set s2 \<and>
           is_buy (order (ns a)) = desc"
proof -
  from assms(2) obtain k l where kl: "(k, l) \<in> set s" "a \<in> set (orders l)"
    by (auto simp: in_side_addrs)
  with assms(1) have ok: "level_ok ns desc (k, l)" by (auto simp: side_ok_def)
  with kl(2) have pk: "price (order (ns a)) = k" "is_buy (order (ns a)) = desc"
    by (auto simp: level_ok_def fifo_at_def)
  from assms(1) have d: "distinct (map fst s)"
    using sorted_side_distinct by (auto simp: side_ok_def)
  with kl(1) have "map_of s k = Some l" by simp
  from side_split [OF d this] pk kl(2) show ?thesis by blast
qed

lemma fifo_quantity_Nil [simp]: "fifo_quantity ns [] = 0"
  by (simp add: fifo_quantity_def)

lemma fifo_quantity_Cons [simp]:
  "fifo_quantity ns (x # xs) = quantity (order (ns x)) + fifo_quantity ns xs"
  by (simp add: fifo_quantity_def)

lemma fifo_quantity_append [simp]:
  "fifo_quantity ns (xs @ ys) = fifo_quantity ns xs + fifo_quantity ns ys"
  by (simp add: fifo_quantity_def)

lemma fifo_quantity_remove1:
  "a \<in> set xs \<Longrightarrow> fifo_quantity ns (remove1 a xs) = fifo_quantity ns xs - quantity (order (ns a))"
  by (induction xs) auto

lemma fifo_quantity_upd:
  "a \<in> set xs \<Longrightarrow> distinct xs \<Longrightarrow>
   fifo_quantity (ns(a := n)) xs = fifo_quantity ns xs - quantity (order (ns a)) + quantity (order n)"
  by (induction xs) (auto simp: fifo_quantity_upd_other)

lemma level_ok_add:
  assumes "level_ok ns desc (p, l0) \<or> l0 = Level_init p"
    and "price (order (ns a)) = p" and "is_buy (order (ns a)) = desc"
  shows "level_ok ns desc (p, Level_add_order ns l0 a)"
  using assms
  by (auto simp: level_ok_def Level_add_order_def Level_init_def fifo_at_def)

lemma level_ok_remove:
  assumes "level_ok ns desc (p, l0)" and "a \<in> set (orders l0)"
    and "remove1 a (orders l0) \<noteq> []"
  shows "level_ok ns desc (p, Level_remove_order ns l0 a)"
proof -
  from assms(2) obtain n where n: "length (orders l0) = Suc n"
    by (cases "orders l0") auto
  with assms(2) have "length (remove1 a (orders l0)) = n"
    by (simp add: length_remove1)
  with assms n show ?thesis
    by (auto simp: level_ok_def Level_remove_order_def fifo_at_def fifo_quantity_remove1
        dest: notin_set_remove1)
qed

lemma level_ok_update:
  assumes "level_ok ns desc (p, l0)" and "a \<in> set (orders l0)" and "distinct (orders l0)"
  shows "level_ok (snd (Level_update_quantity ns l0 a q)) desc
           (p, fst (Level_update_quantity ns l0 a q))"
  using assms
  by (auto simp: level_ok_def Level_update_quantity_def fifo_at_def fifo_quantity_upd)

lemma sorted_side_drop:
  "sorted_side desc (s1 @ kv # s2) \<Longrightarrow> sorted_side desc (s1 @ s2)"
  by (auto simp: sorted_side_def sorted_wrt_append)

lemma sorted_side_replace:
  "sorted_side desc (s1 @ (p, l) # s2) \<Longrightarrow> sorted_side desc (s1 @ (p, l') # s2)"
  by (simp add: sorted_side_def)

lemma add_to_side_ok:
  assumes ok: "side_ok ns desc s" and fresh: "a \<notin> set (side_addrs s)"
    and buy: "is_buy (order (ns a)) = desc" and dist: "distinct (side_addrs s)"
  shows "side_ok ns desc (add_to_side desc s ns a)"
    and "distinct (side_addrs (add_to_side desc s ns a))"
    and "set (side_addrs (add_to_side desc s ns a)) = insert a (set (side_addrs s))"
proof -
  from ok have srt: "sorted_side desc s" by (simp add: side_ok_def)
  from add_to_side_split [OF srt refl, of ns a]
  obtain s1 s2 l0 where eq: "add_to_side desc s ns a =
        s1 @ (price (order (ns a)), Level_add_order ns l0 a) # s2"
    and s: "s = s1 @ (price (order (ns a)), l0) # s2 \<or>
            s = s1 @ s2 \<and> l0 = Level_init (price (order (ns a))) \<and>
            price (order (ns a)) \<notin> fst ` set s"
    and srt': "sorted_side desc (add_to_side desc s ns a)"
    by blast
  from s ok have l0: "level_ok ns desc (price (order (ns a)), l0) \<or>
      l0 = Level_init (price (order (ns a)))"
    by (auto simp: side_ok_def)
  have new: "level_ok ns desc (price (order (ns a)), Level_add_order ns l0 a)"
    by (rule level_ok_add [OF l0 refl buy])
  from s ok have rest: "\<forall>kv \<in> set s1 \<union> set s2. level_ok ns desc kv"
    by (auto simp: side_ok_def)
  from srt' new rest show "side_ok ns desc (add_to_side desc s ns a)"
    unfolding side_ok_def eq by auto
  from s show "set (side_addrs (add_to_side desc s ns a)) = insert a (set (side_addrs s))"
    unfolding eq by (auto simp: Level_add_order_def Level_init_def)
  from s dist fresh show "distinct (side_addrs (add_to_side desc s ns a))"
    unfolding eq by (auto simp: Level_add_order_def Level_init_def)
qed

lemma remove_from_side_ok:
  assumes ok: "side_ok ns desc s" and mem: "a \<in> set (side_addrs s)"
    and dist: "distinct (side_addrs s)"
  shows "side_ok ns desc (remove_from_side s ns a)"
    and "distinct (side_addrs (remove_from_side s ns a))"
    and "set (side_addrs (remove_from_side s ns a)) = set (side_addrs s) - {a}"
proof -
  from side_located [OF ok mem] obtain s1 s2 l0 where
    s: "s = s1 @ (price (order (ns a)), l0) # s2" and a: "a \<in> set (orders l0)"
    and k: "price (order (ns a)) \<notin> fst ` set s1" "price (order (ns a)) \<notin> fst ` set s2"
    by blast
  have eq: "remove_from_side s ns a =
      (if remove1 a (orders l0) = [] then s1 @ s2
       else s1 @ (price (order (ns a)), Level_remove_order ns l0 a) # s2)"
    unfolding s using k by (simp add: remove_from_side_split)
  from ok s have l0: "level_ok ns desc (price (order (ns a)), l0)"
    and rest: "\<forall>kv \<in> set s1 \<union> set s2. level_ok ns desc kv"
    and srt: "sorted_side desc (s1 @ (price (order (ns a)), l0) # s2)"
    by (auto simp: side_ok_def)
  from dist s have d0: "distinct (orders l0)" by simp
  show "side_ok ns desc (remove_from_side s ns a)"
  proof (cases "remove1 a (orders l0) = []")
    case True
    with eq rest sorted_side_drop [OF srt] show ?thesis by (auto simp: side_ok_def)
  next
    case False
    from level_ok_remove [OF l0 a False] eq rest False
      sorted_side_replace [OF srt, of "Level_remove_order ns l0 a"]
    show ?thesis by (auto simp: side_ok_def)
  qed
  have r: "set (remove1 a (orders l0)) = set (orders l0) - {a}"
    using d0 by simp
  from dist s a have na: "a \<notin> set (side_addrs s1)" "a \<notin> set (side_addrs s2)"
    by auto
  show "set (side_addrs (remove_from_side s ns a)) = set (side_addrs s) - {a}"
  proof (cases "remove1 a (orders l0) = []")
    case True
    with r a have "set (orders l0) = {a}" by auto
    with True na show ?thesis unfolding eq by (auto simp: s)
  next
    case False
    with r na show ?thesis unfolding eq by (auto simp: s Level_remove_order_def)
  qed
  show "distinct (side_addrs (remove_from_side s ns a))"
  proof (cases "remove1 a (orders l0) = []")
    case True
    with dist show ?thesis unfolding eq by (auto simp: s)
  next
    case False
    with dist r d0 show ?thesis unfolding eq by (auto simp: s Level_remove_order_def)
  qed
qed

lemma update_quantity_in_place_ok:
  assumes ok: "side_ok ns desc s" and mem: "a \<in> set (side_addrs s)"
    and dist: "distinct (side_addrs s)"
  shows "side_ok (snd (update_quantity_in_place s ns a q)) desc
           (fst (update_quantity_in_place s ns a q))"
    and "side_fifos (fst (update_quantity_in_place s ns a q)) = side_fifos s"
    and "snd (update_quantity_in_place s ns a q) =
         ns(a := (ns a)\<lparr>order := (order (ns a))\<lparr>quantity := q\<rparr>\<rparr>)"
proof -
  from side_located [OF ok mem] obtain s1 s2 l0 where
    s: "s = s1 @ (price (order (ns a)), l0) # s2" and a: "a \<in> set (orders l0)"
    and k: "price (order (ns a)) \<notin> fst ` set s1" "price (order (ns a)) \<notin> fst ` set s2"
    by blast
  have eq: "update_quantity_in_place s ns a q =
      (s1 @ (price (order (ns a)), fst (Level_update_quantity ns l0 a q)) # s2,
       snd (Level_update_quantity ns l0 a q))"
    unfolding s using k by (simp add: update_quantity_in_place_split)
  from ok s have l0: "level_ok ns desc (price (order (ns a)), l0)"
    and rest: "\<forall>kv \<in> set s1 \<union> set s2. level_ok ns desc kv"
    and srt: "sorted_side desc (s1 @ (price (order (ns a)), l0) # s2)"
    by (auto simp: side_ok_def)
  from dist s have d0: "distinct (orders l0)" by simp
  from dist s a have "a \<notin> set (side_addrs s1)" "a \<notin> set (side_addrs s2)"
    by auto
  then have other: "\<forall>kv \<in> set s1 \<union> set s2. a \<notin> set (orders (snd kv))"
    by (auto simp: in_side_addrs)
  have ns': "snd (Level_update_quantity ns l0 a q) =
      ns(a := (ns a)\<lparr>order := (order (ns a))\<lparr>quantity := q\<rparr>\<rparr>)"
    by (simp add: Level_update_quantity_def)
  from rest other have rest': "\<forall>kv \<in> set s1 \<union> set s2.
      level_ok (snd (Level_update_quantity ns l0 a q)) desc kv"
    unfolding ns' by (simp add: level_ok_upd_other)
  from level_ok_update [OF l0 a d0, of q] rest'
    sorted_side_replace [OF srt, of "fst (Level_update_quantity ns l0 a q)"]
  show "side_ok (snd (update_quantity_in_place s ns a q)) desc
           (fst (update_quantity_in_place s ns a q))"
    unfolding eq by (auto simp: side_ok_def)
  show "side_fifos (fst (update_quantity_in_place s ns a q)) = side_fifos s"
    unfolding eq by (simp add: s Level_update_quantity_def side_fifos_def)
  show "snd (update_quantity_in_place s ns a q) =
         ns(a := (ns a)\<lparr>order := (order (ns a))\<lparr>quantity := q\<rparr>\<rparr>)"
    unfolding eq by (simp add: ns')
qed

lemma block_roll: "1 \<le> n \<Longrightarrow> (n - 1) * B + B = n * (B::nat)"
  by (cases n) simp_all

lemma allocate_ok:
  assumes "pool_ok p live"
  shows "fst (allocate p) \<notin> live"
    and "pool_ok (snd (allocate p)) (insert (fst (allocate p)) live)"
proof -
  show "fst (allocate p) \<notin> live"
  proof (cases "free_list p = []")
    case True
    have "fst (allocate p) = pool_bound p" if "1 \<le> blocks_allocated p" "current_index p \<le> BlockSize"
      using that True block_roll [of "blocks_allocated p" BlockSize]
      by (auto simp: allocate_def Let_def pool_bound_def allocate_block_def)
    with assms show ?thesis
      by (fastforce simp: pool_ok_def)
  next
    case False
    from assms have "set (free_list p) \<inter> live = {}" by (simp add: pool_ok_def)
    with last_in_set [OF False] have "last (free_list p) \<notin> live" by blast
    with False show ?thesis by (simp add: allocate_def Let_def)
  qed
  show "pool_ok (snd (allocate p)) (insert (fst (allocate p)) live)"
  proof (cases "free_list p = []")
    case True
    with assms show ?thesis
      by (auto simp: allocate_def Let_def pool_ok_def pool_bound_def allocate_block_def
          BlockSize_def)
  next
    case False
    then obtain xs x where fl: "free_list p = xs @ [x]"
      by (metis append_butlast_last_id)
    with assms show ?thesis
      by (auto simp: allocate_def Let_def pool_ok_def pool_bound_def)
  qed
qed

lemma deallocate_ok:
  assumes "pool_ok p live" and "a \<in> live"
  shows "pool_ok (deallocate p a) (live - {a})"
  using assms by (auto simp: deallocate_def pool_ok_def pool_bound_def)

lemma wf_new_book: "wf_book new_book"
  by (simp add: wf_book_def new_book_def side_ok_def sorted_side_def live_addrs_def pool_ok_def
      MemoryPool_init_def allocate_block_def BlockSize_def lookup_ok_def cache_ok_def)

subsection \<open>add_order, field by field\<close>

lemma nodes_add_order:
  "nodes (add_order b ord) = (nodes b)(new_addr b := OrderNode_init ord)"
  by (simp add: add_order_def new_addr_def split_def Let_def)

lemma order_pool_add_order:
  "order_pool (add_order b ord) = snd (allocate (order_pool b))"
  by (simp add: add_order_def split_def Let_def)

lemma order_lookup_add_order:
  "order_lookup (add_order b ord) = lookup_emplace (order_lookup b) (order_id ord) (new_addr b)"
  by (simp add: add_order_def new_addr_def split_def Let_def)

lemma bid_levels_add_order:
  "bid_levels (add_order b ord) =
     (if is_buy ord then add_to_side True (bid_levels b) (nodes (add_order b ord)) (new_addr b)
      else bid_levels b)"
  by (simp add: add_order_def new_addr_def split_def Let_def)

lemma ask_levels_add_order:
  "ask_levels (add_order b ord) =
     (if is_buy ord then ask_levels b
      else add_to_side False (ask_levels b) (nodes (add_order b ord)) (new_addr b))"
  by (simp add: add_order_def new_addr_def split_def Let_def)

lemma counters_add_order:
  "total_orders (add_order b ord) = total_orders b + 1"
  "total_cancels (add_order b ord) = total_cancels b"
  "total_amends (add_order b ord) = total_amends b"
  "total_snapshots (add_order b ord) = total_snapshots b"
  "cache_valid (add_order b ord) = False"
  by (simp_all add: add_order_def split_def Let_def)

lemma sides_add_order:
  assumes "wf_book b"
  shows "new_addr b \<notin> set (live_addrs b)"
    and "side_ok (nodes (add_order b ord)) True (bid_levels (add_order b ord))"
    and "side_ok (nodes (add_order b ord)) False (ask_levels (add_order b ord))"
    and "distinct (live_addrs (add_order b ord))"
    and "set (live_addrs (add_order b ord)) = insert (new_addr b) (set (live_addrs b))"
proof -
  let ?a = "new_addr b"
  let ?ns = "(nodes b)(?a := OrderNode_init ord)"
  let ?b' = "add_order b ord"
  from assms have bid: "side_ok (nodes b) True (bid_levels b)"
    and ask: "side_ok (nodes b) False (ask_levels b)"
    and dist: "distinct (live_addrs b)"
    and pool: "pool_ok (order_pool b) (set (live_addrs b))"
    by (simp_all add: wf_book_def)
  from allocate_ok(1) [OF pool] show fresh: "?a \<notin> set (live_addrs b)"
    by (simp add: new_addr_def)
  from fresh have fb: "?a \<notin> set (side_addrs (bid_levels b))"
    and fa: "?a \<notin> set (side_addrs (ask_levels b))"
    by (simp_all add: live_addrs_def)
  from dist have db: "distinct (side_addrs (bid_levels b))"
    and da: "distinct (side_addrs (ask_levels b))"
    and disj: "set (side_addrs (bid_levels b)) \<inter> set (side_addrs (ask_levels b)) = {}"
    by (simp_all add: live_addrs_def)
  from bid fb have bid1: "side_ok ?ns True (bid_levels b)" by (simp add: side_ok_upd_other)
  from ask fa have ask1: "side_ok ?ns False (ask_levels b)" by (simp add: side_ok_upd_other)
  have pr: "is_buy (order (?ns ?a)) = is_buy ord" by (simp add: OrderNode_init_def)
  have sides: "side_ok ?ns True (bid_levels ?b') \<and> side_ok ?ns False (ask_levels ?b') \<and>
      distinct (live_addrs ?b') \<and> set (live_addrs ?b') = insert ?a (set (live_addrs b))"
  proof (cases "is_buy ord")
    case True
    from add_to_side_ok [OF bid1 fb _ db] True pr
    have "side_ok ?ns True (add_to_side True (bid_levels b) ?ns ?a)"
      "distinct (side_addrs (add_to_side True (bid_levels b) ?ns ?a))"
      "set (side_addrs (add_to_side True (bid_levels b) ?ns ?a)) =
         insert ?a (set (side_addrs (bid_levels b)))"
      by simp_all
    with True ask1 da disj fa show ?thesis
      by (simp add: live_addrs_def bid_levels_add_order ask_levels_add_order nodes_add_order)
  next
    case False
    from add_to_side_ok [OF ask1 fa _ da] False pr
    have "side_ok ?ns False (add_to_side False (ask_levels b) ?ns ?a)"
      "distinct (side_addrs (add_to_side False (ask_levels b) ?ns ?a))"
      "set (side_addrs (add_to_side False (ask_levels b) ?ns ?a)) =
         insert ?a (set (side_addrs (ask_levels b)))"
      by simp_all
    with False bid1 db disj fb show ?thesis
      by (simp add: live_addrs_def bid_levels_add_order ask_levels_add_order nodes_add_order)
  qed
  then show "side_ok (nodes ?b') True (bid_levels ?b')"
    and "side_ok (nodes ?b') False (ask_levels ?b')"
    and "distinct (live_addrs ?b')"
    and "set (live_addrs ?b') = insert ?a (set (live_addrs b))"
    by (simp_all add: nodes_add_order)
qed

lemma wf_add_order:
  assumes "wf_book b"
  shows "wf_book (add_order b ord)"
proof -
  let ?a = "new_addr b"
  let ?b' = "add_order b ord"
  note sides = sides_add_order [OF assms]
  from assms have pool: "pool_ok (order_pool b) (set (live_addrs b))"
    and look: "lookup_ok b"
    by (simp_all add: wf_book_def)
  from allocate_ok(2) [OF pool]
  have pool': "pool_ok (snd (allocate (order_pool b))) (insert ?a (set (live_addrs b)))"
    by (simp add: new_addr_def)
  note fresh = sides(1)
  have look': "lookup_ok ?b'"
    unfolding lookup_ok_def
  proof (intro allI impI)
    fix i a'
    assume h: "order_lookup ?b' i = Some a'"
    show "a' \<in> set (live_addrs ?b') \<and> order_id (order (nodes ?b' a')) = i"
    proof (cases "order_lookup b i = Some a'")
      case True
      with look have "a' \<in> set (live_addrs b)" "order_id (order (nodes b a')) = i"
        by (auto simp: lookup_ok_def)
      with fresh sides show ?thesis by (auto simp: nodes_add_order)
    next
      case False
      with h have "i = order_id ord \<and> a' = ?a"
        by (auto simp: order_lookup_add_order lookup_emplace_def split: option.splits if_splits)
      with sides show ?thesis by (simp add: nodes_add_order OrderNode_init_def)
    qed
  qed
  from sides pool' look' show ?thesis
    by (simp add: wf_book_def order_pool_add_order cache_ok_def counters_add_order)
qed

lemma side_addrs_fifos: "side_addrs s = concat (map snd (side_fifos s))"
  by (simp add: side_addrs_def side_fifos_def comp_def)

lemma wf_live_side:
  assumes "wf_book b" and "a \<in> set (live_addrs b)"
  shows "if is_buy (order (nodes b a)) then a \<in> set (side_addrs (bid_levels b))
         else a \<in> set (side_addrs (ask_levels b))"
proof -
  from assms(1) have bid: "side_ok (nodes b) True (bid_levels b)"
    and ask: "side_ok (nodes b) False (ask_levels b)" by (simp_all add: wf_book_def)
  from assms(2) consider "a \<in> set (side_addrs (bid_levels b))"
    | "a \<in> set (side_addrs (ask_levels b))" by (auto simp: live_addrs_def)
  then show ?thesis
  proof cases
    case 1
    from side_located [OF bid 1] 1 show ?thesis by auto
  next
    case 2
    from side_located [OF ask 2] 2 show ?thesis by auto
  qed
qed

lemma wf_lookup_live:
  "wf_book b \<Longrightarrow> order_lookup b i = Some a \<Longrightarrow>
   a \<in> set (live_addrs b) \<and> order_id (order (nodes b a)) = i"
  by (simp add: wf_book_def lookup_ok_def)

lemma wf_cong:
  assumes "wf_book b" and "bid_levels b' = bid_levels b" and "ask_levels b' = ask_levels b"
    and "nodes b' = nodes b" and "order_pool b' = order_pool b"
    and "order_lookup b' = order_lookup b" and "cache_ok b'"
  shows "wf_book b'"
  using assms by (simp add: wf_book_def live_addrs_def lookup_ok_def)

lemma wf_invalidate: "wf_book b \<Longrightarrow> wf_book (b\<lparr>cache_valid := False\<rparr>)"
  by (erule wf_cong) (simp_all add: cache_ok_def)

subsection \<open>cancel_order, field by field\<close>

lemma cancel_order_unknown: "order_lookup b oid = None \<Longrightarrow> cancel_order b oid = (False, b)"
  by (simp add: cancel_order_def)


lemma nodes_cancel_order: "nodes (snd (cancel_order b oid)) = nodes b"
  by (simp add: cancel_order_def Let_def split: option.splits)

lemma order_pool_cancel_order:
  "order_lookup b oid = Some a \<Longrightarrow>
   order_pool (snd (cancel_order b oid)) = deallocate (order_pool b) a"
  by (simp add: cancel_order_def Let_def)

lemma order_lookup_cancel_order:
  "order_lookup (snd (cancel_order b oid)) = (order_lookup b)(oid := None)"
  by (auto simp: cancel_order_def Let_def split: option.splits)

lemma bid_levels_cancel_order:
  "order_lookup b oid = Some a \<Longrightarrow>
   bid_levels (snd (cancel_order b oid)) =
     (if is_buy (order (nodes b a)) then remove_from_side (bid_levels b) (nodes b) a
      else bid_levels b)"
  by (simp add: cancel_order_def Let_def)

lemma ask_levels_cancel_order:
  "order_lookup b oid = Some a \<Longrightarrow>
   ask_levels (snd (cancel_order b oid)) =
     (if is_buy (order (nodes b a)) then ask_levels b
      else remove_from_side (ask_levels b) (nodes b) a)"
  by (simp add: cancel_order_def Let_def)

lemma counters_cancel_order:
  "order_lookup b oid = Some a \<Longrightarrow>
   total_orders (snd (cancel_order b oid)) = total_orders b \<and>
   total_cancels (snd (cancel_order b oid)) = total_cancels b + 1 \<and>
   total_amends (snd (cancel_order b oid)) = total_amends b \<and>
   total_snapshots (snd (cancel_order b oid)) = total_snapshots b \<and>
   cache_valid (snd (cancel_order b oid)) = False"
  by (simp add: cancel_order_def Let_def)

lemma live_cancel_order:
  assumes "wf_book b" and "order_lookup b oid = Some a"
  shows "side_ok (nodes b) True (bid_levels (snd (cancel_order b oid)))"
    and "side_ok (nodes b) False (ask_levels (snd (cancel_order b oid)))"
    and "distinct (live_addrs (snd (cancel_order b oid)))"
    and "set (live_addrs (snd (cancel_order b oid))) = set (live_addrs b) - {a}"
proof -
  let ?b' = "snd (cancel_order b oid)"
  from assms(1) have bid: "side_ok (nodes b) True (bid_levels b)"
    and ask: "side_ok (nodes b) False (ask_levels b)"
    and dist: "distinct (live_addrs b)"
    by (simp_all add: wf_book_def)
  from dist have db: "distinct (side_addrs (bid_levels b))"
    and da: "distinct (side_addrs (ask_levels b))"
    and disj: "set (side_addrs (bid_levels b)) \<inter> set (side_addrs (ask_levels b)) = {}"
    by (simp_all add: live_addrs_def)
  from wf_lookup_live [OF assms] have live: "a \<in> set (live_addrs b)" by simp
  have "side_ok (nodes b) True (bid_levels ?b') \<and> side_ok (nodes b) False (ask_levels ?b') \<and>
      distinct (live_addrs ?b') \<and> set (live_addrs ?b') = set (live_addrs b) - {a}"
  proof (cases "is_buy (order (nodes b a))")
    case True
    with wf_live_side [OF assms(1) live] have m: "a \<in> set (side_addrs (bid_levels b))"
      by simp
    with disj have "a \<notin> set (side_addrs (ask_levels b))" by auto
    with remove_from_side_ok [OF bid m db] True ask da disj show ?thesis
      by (auto simp: live_addrs_def bid_levels_cancel_order [OF assms(2)]
          ask_levels_cancel_order [OF assms(2)])
  next
    case False
    with wf_live_side [OF assms(1) live] have m: "a \<in> set (side_addrs (ask_levels b))"
      by simp
    with disj have "a \<notin> set (side_addrs (bid_levels b))" by auto
    with remove_from_side_ok [OF ask m da] False bid db disj show ?thesis
      by (auto simp: live_addrs_def bid_levels_cancel_order [OF assms(2)]
          ask_levels_cancel_order [OF assms(2)])
  qed
  then show "side_ok (nodes b) True (bid_levels ?b')"
    and "side_ok (nodes b) False (ask_levels ?b')"
    and "distinct (live_addrs ?b')"
    and "set (live_addrs ?b') = set (live_addrs b) - {a}"
    by simp_all
qed

lemma wf_cancel_order:
  assumes "wf_book b"
  shows "wf_book (snd (cancel_order b oid))"
proof (cases "order_lookup b oid")
  case None
  with assms show ?thesis by (simp add: cancel_order_unknown)
next
  case (Some a)
  let ?b' = "snd (cancel_order b oid)"
  note lv = live_cancel_order [OF assms Some]
  from assms have pool: "pool_ok (order_pool b) (set (live_addrs b))"
    and look: "lookup_ok b" by (simp_all add: wf_book_def)
  from wf_lookup_live [OF assms Some] have live: "a \<in> set (live_addrs b)"
    and ida: "order_id (order (nodes b a)) = oid" by simp_all
  from deallocate_ok [OF pool live] lv(4)
  have pool': "pool_ok (order_pool ?b') (set (live_addrs ?b'))"
    by (simp add: order_pool_cancel_order [OF Some])
  have look': "lookup_ok ?b'"
    unfolding lookup_ok_def
  proof (intro allI impI)
    fix i a'
    assume "order_lookup ?b' i = Some a'"
    then have ne: "i \<noteq> oid" and old: "order_lookup b i = Some a'"
      by (auto simp: order_lookup_cancel_order split: if_splits)
    from look old have "a' \<in> set (live_addrs b)" "order_id (order (nodes b a')) = i"
      by (auto simp: lookup_ok_def)
    with ne ida lv(4) show "a' \<in> set (live_addrs ?b') \<and> order_id (order (nodes ?b' a')) = i"
      by (auto simp: nodes_cancel_order)
  qed
  from lv pool' look' counters_cancel_order [OF Some] show ?thesis
    by (simp add: wf_book_def nodes_cancel_order cache_ok_def)
qed

subsection \<open>amend_order, path by path\<close>

lemma amend_order_unknown:
  "order_lookup b oid = None \<Longrightarrow> amend_order b oid p q now = (False, b)"
  by (simp add: amend_order_def)

lemma fst_amend_order: "fst (amend_order b oid p q now) = (order_lookup b oid \<noteq> None)"
  by (simp add: amend_order_def Let_def split: option.splits)

lemma amend_order_price_change:
  assumes "order_lookup b oid = Some a" and "\<bar>double_sub (price (order (nodes b a))) p\<bar> > epsilon"
  shows "snd (amend_order b oid p q now) =
     (add_order (snd (cancel_order (b\<lparr>cache_valid := False\<rparr>) oid))
        (amended (order (nodes b a)) p q now))
     \<lparr>total_amends := total_amends b + 1\<rparr>"
  using assms counters_cancel_order [of "b\<lparr>cache_valid := False\<rparr>" oid a]
  by (simp add: amend_order_def Let_def amended_def counters_add_order)

lemma amend_order_quantity_only:
  assumes "order_lookup b oid = Some a" and "\<not> \<bar>double_sub (price (order (nodes b a))) p\<bar> > epsilon"
  shows "snd (amend_order b oid p q now) =
     (if is_buy (order (nodes b a)) then
        b\<lparr>cache_valid := False,
          bid_levels := fst (update_quantity_in_place (bid_levels b) (nodes b) a q),
          nodes := snd (update_quantity_in_place (bid_levels b) (nodes b) a q),
          total_amends := total_amends b + 1\<rparr>
      else
        b\<lparr>cache_valid := False,
          ask_levels := fst (update_quantity_in_place (ask_levels b) (nodes b) a q),
          nodes := snd (update_quantity_in_place (ask_levels b) (nodes b) a q),
          total_amends := total_amends b + 1\<rparr>)"
  using assms by (simp add: amend_order_def Let_def split_def)

lemma wf_quantity_only:
  assumes "wf_book b" and "order_lookup b oid = Some a"
  shows "wf_book (if is_buy (order (nodes b a)) then
        b\<lparr>cache_valid := False,
          bid_levels := fst (update_quantity_in_place (bid_levels b) (nodes b) a q),
          nodes := snd (update_quantity_in_place (bid_levels b) (nodes b) a q),
          total_amends := t\<rparr>
      else
        b\<lparr>cache_valid := False,
          ask_levels := fst (update_quantity_in_place (ask_levels b) (nodes b) a q),
          nodes := snd (update_quantity_in_place (ask_levels b) (nodes b) a q),
          total_amends := t\<rparr>)"
proof -
  let ?n = "(nodes b a)\<lparr>order := (order (nodes b a))\<lparr>quantity := q\<rparr>\<rparr>"
  from assms(1) have bid: "side_ok (nodes b) True (bid_levels b)"
    and ask: "side_ok (nodes b) False (ask_levels b)"
    and dist: "distinct (live_addrs b)"
    and pool: "pool_ok (order_pool b) (set (live_addrs b))"
    and look: "lookup_ok b"
    by (simp_all add: wf_book_def)
  from dist have db: "distinct (side_addrs (bid_levels b))"
    and da: "distinct (side_addrs (ask_levels b))"
    and disj: "set (side_addrs (bid_levels b)) \<inter> set (side_addrs (ask_levels b)) = {}"
    by (simp_all add: live_addrs_def)
  from wf_lookup_live [OF assms] have live: "a \<in> set (live_addrs b)" by simp
  have ids: "order_id (order (((nodes b)(a := ?n)) x)) = order_id (order (nodes b x))" for x
    by simp
  show ?thesis
  proof (cases "is_buy (order (nodes b a))")
    case True
    with wf_live_side [OF assms(1) live] have m: "a \<in> set (side_addrs (bid_levels b))"
      by simp
    with disj have o: "a \<notin> set (side_addrs (ask_levels b))" by auto
    note u = update_quantity_in_place_ok [OF bid m db, of q]
    from u(2) have same: "side_addrs (fst (update_quantity_in_place (bid_levels b) (nodes b) a q))
        = side_addrs (bid_levels b)"
      by (simp add: side_addrs_fifos)
    from ask o have "side_ok ((nodes b)(a := ?n)) False (ask_levels b)"
      by (simp add: side_ok_upd_other)
    with True u same dist pool look ids show ?thesis
      by (simp add: wf_book_def live_addrs_def lookup_ok_def cache_ok_def)
  next
    case False
    with wf_live_side [OF assms(1) live] have m: "a \<in> set (side_addrs (ask_levels b))"
      by simp
    with disj have o: "a \<notin> set (side_addrs (bid_levels b))" by auto
    note u = update_quantity_in_place_ok [OF ask m da, of q]
    from u(2) have same: "side_addrs (fst (update_quantity_in_place (ask_levels b) (nodes b) a q))
        = side_addrs (ask_levels b)"
      by (simp add: side_addrs_fifos)
    from bid o have "side_ok ((nodes b)(a := ?n)) True (bid_levels b)"
      by (simp add: side_ok_upd_other)
    with False u same dist pool look ids show ?thesis
      by (simp add: wf_book_def live_addrs_def lookup_ok_def cache_ok_def)
  qed
qed

lemma wf_amend_order:
  assumes "wf_book b"
  shows "wf_book (snd (amend_order b oid p q now))"
proof (cases "order_lookup b oid")
  case None
  with assms show ?thesis by (simp add: amend_order_unknown)
next
  case (Some a)
  show ?thesis
  proof (cases "\<bar>double_sub (price (order (nodes b a))) p\<bar> > epsilon")
    case True
    have "wf_book (add_order (snd (cancel_order (b\<lparr>cache_valid := False\<rparr>) oid))
        (amended (order (nodes b a)) p q now))"
      by (intro wf_add_order wf_cancel_order wf_invalidate assms)
    then show ?thesis
      unfolding amend_order_price_change [OF Some True]
      by (rule wf_cong) (simp_all add: cache_ok_def counters_add_order)
  next
    case False
    show ?thesis
      unfolding amend_order_quantity_only [OF Some False]
      by (rule wf_quantity_only [OF assms Some])
  qed
qed

subsection \<open>The read operations\<close>

lemma book_get_snapshot:
  "snd (snd (get_snapshot b depth bids asks g1 g2)) =
     b\<lparr>total_snapshots := total_snapshots b + 1\<rparr>"
  by (simp add: get_snapshot_def Let_def split: sum.splits)

lemma wf_get_snapshot:
  "wf_book b \<Longrightarrow> wf_book (snd (snd (get_snapshot b depth bids asks g1 g2)))"
  unfolding book_get_snapshot
  by (simp add: wf_book_def live_addrs_def lookup_ok_def cache_ok_def)

lemma wf_get_best_prices: "wf_book b \<Longrightarrow> wf_book (snd (get_best_prices b))"
  by (cases "cache_valid b")
    (auto simp: get_best_prices_def Let_def wf_book_def live_addrs_def lookup_ok_def cache_ok_def
      front_price_def)

lemma wf_apply_op: "wf_book b \<Longrightarrow> wf_book (apply_op b x)"
  by (cases x) (simp_all add: wf_add_order wf_cancel_order wf_amend_order wf_get_snapshot
      wf_get_best_prices)

lemma wf_run_ops: "wf_book b \<Longrightarrow> wf_book (run_ops b xs)"
  unfolding run_ops_def by (induction xs arbitrary: b) (simp_all add: wf_apply_op)

lemma wf_reachable: "wf_book (run_ops new_book xs)"
  by (rule wf_run_ops [OF wf_new_book])

subsection \<open>Evaluating concrete books\<close>

lemmas eval_defs =
  run_ops_def mk_order_def add_order_def new_book_def allocate_def MemoryPool_init_def
  allocate_block_def BlockSize_def OrderNode_init_def lookup_emplace_def add_to_side_def
  side_find_def side_assign_def Level_add_order_def Level_init_def key_before_def
  amend_order_def cancel_order_def price_test remove_from_side_def Level_remove_order_def
  Level_is_empty_def side_erase_def deallocate_def update_quantity_in_place_def
  Level_update_quantity_def get_snapshot_def vector_reserve_def vector_max_size_def
  get_best_prices_def vector_clear_def Let_def

subsection \<open>Level aggregates\<close>

lemma unat_sum_list:
  "unat (sum_list (ws :: u64 list)) = sum_list (map unat ws) mod 2 ^ 64"
proof (induction ws)
  case Nil
  show ?case by simp
next
  case (Cons w ws)
  have "unat (w + sum_list ws) = (unat w + unat (sum_list ws)) mod 2 ^ 64"
    by (simp add: unat_word_ariths)
  also have "\<dots> = (unat w + sum_list (map unat ws)) mod 2 ^ 64"
    by (simp add: Cons.IH mod_add_right_eq)
  finally show ?case by simp
qed

lemma wf_levels_consistent:
  assumes "wf_book b"
  shows "levels_consistent b"
  unfolding levels_consistent_def
proof
  fix kv assume "kv \<in> set (bid_levels b) \<union> set (ask_levels b)"
  with assms have ok: "level_ok (nodes b) True kv \<or> level_ok (nodes b) False kv"
    by (auto simp: wf_book_def side_ok_def)
  then have t: "total_quantity (snd kv) =
      sum_list (map (\<lambda>a. quantity (order (nodes b a))) (orders (snd kv)))"
    by (auto simp: level_ok_def fifo_quantity_def)
  have "unat (total_quantity (snd kv)) =
      sum_list (map (\<lambda>a. unat (quantity (order (nodes b a)))) (orders (snd kv))) mod 2 ^ 64"
    unfolding t unat_sum_list by (simp add: comp_def)
  with ok t show "orders (snd kv) \<noteq> [] \<and>
      total_quantity (snd kv) =
        sum_list (map (\<lambda>a. quantity (order (nodes b a))) (orders (snd kv))) \<and>
      unat (total_quantity (snd kv)) =
        sum_list (map (\<lambda>a. unat (quantity (order (nodes b a)))) (orders (snd kv))) mod 2 ^ 64 \<and>
      order_count (snd kv) = of_nat (length (orders (snd kv)))"
    by (auto simp: level_ok_def)
qed

subsection \<open>Snapshots and best prices\<close>

lemma key_before_True: "key_before True = (\<lambda>x y. y < x)"
  by (intro ext) (simp add: key_before_def)

lemma key_before_False: "key_before False = (\<lambda>x y. x < y)"
  by (intro ext) (simp add: key_before_def)

lemma snapshot_loop_take:
  "snapshot_loop depth count s out = out @ take (depth - count) (map level_view s)"
proof (induction s arbitrary: count out)
  case Nil
  show ?case by simp
next
  case (Cons kv s)
  obtain p l where kv: "kv = (p, l)" by (cases kv)
  show ?case
  proof (cases "depth \<le> count")
    case True
    then show ?thesis by (simp add: kv)
  next
    case False
    then have "depth - count = Suc (depth - (count + 1))" by simp
    with False show ?thesis
      by (simp add: kv Cons.IH level_view_def del: One_nat_def)
  qed
qed

lemma sorted_side_prices:
  "sorted_side desc s \<Longrightarrow> sorted_wrt (key_before desc) (map pl_price (take k (map level_view s)))"
proof -
  assume "sorted_side desc s"
  then have "sorted_wrt (key_before desc) (take k (map fst s))"
    unfolding sorted_side_def by (rule sorted_wrt_take)
  moreover have "map pl_price (take k (map level_view s)) = take k (map fst s)"
    by (simp add: take_map level_view_def comp_def)
  ultimately show ?thesis by simp
qed

lemma front_is_Max:
  "sorted_wrt (\<lambda>x y. y < x) (k # ks) \<Longrightarrow> Max (set (k # ks)) = (k::real)"
  by (intro Max_eqI) auto

lemma front_is_Min:
  "sorted_wrt (\<lambda>x y. x < y) (k # ks) \<Longrightarrow> Min (set (k # ks)) = (k::real)"
  by (intro Min_eqI) auto

lemma side_keys_prices:
  assumes "side_ok ns desc s"
  shows "(\<lambda>a. price (order (ns a))) ` set (side_addrs s) = fst ` set s"
proof (intro set_eqI iffI)
  fix p assume "p \<in> (\<lambda>a. price (order (ns a))) ` set (side_addrs s)"
  then obtain a kv where "kv \<in> set s" "a \<in> set (orders (snd kv))" "p = price (order (ns a))"
    by (auto simp: in_side_addrs)
  with assms show "p \<in> fst ` set s"
    by (auto simp: side_ok_def level_ok_def fifo_at_def)
next
  fix p assume "p \<in> fst ` set s"
  then obtain kv where kv: "kv \<in> set s" "p = fst kv" by auto
  with assms have ok: "level_ok ns desc kv" by (simp add: side_ok_def)
  then obtain a where a: "a \<in> set (orders (snd kv))"
    by (cases "orders (snd kv)") (auto simp: level_ok_def)
  with ok kv have "price (order (ns a)) = p" by (simp add: level_ok_def fifo_at_def)
  moreover from a kv have "a \<in> set (side_addrs s)" by (auto simp: in_side_addrs)
  ultimately show "p \<in> (\<lambda>a. price (order (ns a))) ` set (side_addrs s)" by blast
qed

lemma front_price_bid:
  assumes "side_ok ns True s"
  shows "front_price 0 s =
     (if s = [] then 0 else Max ((\<lambda>a. price (order (ns a))) ` set (side_addrs s)))"
proof (cases s)
  case Nil
  then show ?thesis by (simp add: front_price_def)
next
  case (Cons kv r)
  from assms have "sorted_wrt (\<lambda>x y. y < x) (map fst s)"
    by (simp add: side_ok_def sorted_side_def key_before_True)
  with Cons have m: "Max (fst ` set s) = fst kv" using front_is_Max [of "fst kv" "map fst r"]
    by simp
  from Cons have "s \<noteq> []" and "front_price 0 s = fst kv"
    by (simp_all add: front_price_def)
  with m show ?thesis
    unfolding side_keys_prices [OF assms] by simp
qed

lemma front_price_ask:
  assumes "side_ok ns False s"
  shows "front_price double_max s =
     (if s = [] then double_max else Min ((\<lambda>a. price (order (ns a))) ` set (side_addrs s)))"
proof (cases s)
  case Nil
  then show ?thesis by (simp add: front_price_def)
next
  case (Cons kv r)
  from assms have "sorted_wrt (\<lambda>x y. x < y) (map fst s)"
    by (simp add: side_ok_def sorted_side_def key_before_False)
  with Cons have m: "Min (fst ` set s) = fst kv" using front_is_Min [of "fst kv" "map fst r"]
    by simp
  from Cons have "s \<noteq> []" and "front_price double_max s = fst kv"
    by (simp_all add: front_price_def)
  with m show ?thesis
    unfolding side_keys_prices [OF assms] by simp
qed

lemma fst_get_best_prices:
  "cache_ok b \<Longrightarrow>
   fst (get_best_prices b) = (front_price 0 (bid_levels b), front_price double_max (ask_levels b))"
  by (auto simp: get_best_prices_def Let_def cache_ok_def front_price_def)

subsection \<open>Looking up a level after an operation\<close>

lemma map_of_mid:
  "p \<notin> fst ` set s1 \<Longrightarrow>
   map_of (s1 @ (p, x) # s2) k = (if k = p then Some x else map_of (s1 @ s2) k)"
  by (induction s1) auto

lemma map_of_absent: "p \<notin> fst ` set s \<Longrightarrow> map_of s p = None"
  by (simp add: map_of_eq_None_iff)

lemma add_to_side_find:
  assumes "sorted_side desc s"
  shows "side_find (add_to_side desc s ns a) k =
     (if k = price (order (ns a))
      then Some (Level_add_order ns (case side_find s k of None \<Rightarrow> Level_init k | Some l \<Rightarrow> l) a)
      else side_find s k)"
proof -
  let ?p = "price (order (ns a))"
  from add_to_side_split [OF assms refl, of ns a]
  obtain s1 s2 l0 where eq: "add_to_side desc s ns a = s1 @ (?p, Level_add_order ns l0 a) # s2"
    and s: "s = s1 @ (?p, l0) # s2 \<or> s = s1 @ s2 \<and> l0 = Level_init ?p \<and> ?p \<notin> fst ` set s"
    and k: "?p \<notin> fst ` set s1" "?p \<notin> fst ` set s2"
    by blast
  from s show ?thesis
  proof
    assume "s = s1 @ (?p, l0) # s2"
    with k show ?thesis
      unfolding eq side_find_def by (simp add: map_of_mid del: map_of_append)
  next
    assume h: "s = s1 @ s2 \<and> l0 = Level_init ?p \<and> ?p \<notin> fst ` set s"
    then have "?p \<notin> fst ` set s" by (elim conjE)
    then have "map_of s ?p = None" by (rule map_of_absent)
    with h k show ?thesis
      unfolding eq side_find_def by (simp add: map_of_mid del: map_of_append)
  qed
qed

lemma remove_from_side_find:
  assumes ok: "side_ok ns desc s" and mem: "a \<in> set (side_addrs s)"
    and dist: "distinct (side_addrs s)"
  shows "\<exists>l0. side_find s (price (order (ns a))) = Some l0 \<and> a \<in> set (orders l0) \<and>
           distinct (orders l0) \<and>
           (\<forall>k. side_find (remove_from_side s ns a) k =
              (if k = price (order (ns a))
               then (if orders l0 = [a] then None else Some (Level_remove_order ns l0 a))
               else side_find s k))"
proof -
  let ?p = "price (order (ns a))"
  from side_located [OF ok mem] obtain s1 s2 l0 where
    s: "s = s1 @ (?p, l0) # s2" and a: "a \<in> set (orders l0)"
    and k: "?p \<notin> fst ` set s1" "?p \<notin> fst ` set s2"
    by blast
  have eq: "remove_from_side s ns a =
      (if remove1 a (orders l0) = [] then s1 @ s2
       else s1 @ (?p, Level_remove_order ns l0 a) # s2)"
    unfolding s using k by (simp add: remove_from_side_split)
  from dist s have d0: "distinct (orders l0)" by simp
  have single: "remove1 a (orders l0) = [] \<longleftrightarrow> orders l0 = [a]"
    using a by (cases "orders l0") (auto split: if_splits)
  from k have none: "map_of (s1 @ s2) ?p = None" by (intro map_of_absent) auto
  have "side_find (remove_from_side s ns a) k =
      (if k = ?p then (if orders l0 = [a] then None else Some (Level_remove_order ns l0 a))
       else side_find s k)" for k
    unfolding eq side_find_def using k none
    by (simp add: single s map_of_mid del: map_of_append)
  moreover have "side_find s ?p = Some l0"
    unfolding s using k by (simp add: side_find_split)
  ultimately show ?thesis using a d0 by blast
qed

subsection \<open>The two paths of amend_order\<close>

lemma quantity_only_effect:
  assumes w: "wf_book b" and l: "order_lookup b oid = Some a"
    and e: "\<not> \<bar>double_sub (price (order (nodes b a))) p\<bar> > epsilon"
  shows "nodes (snd (amend_order b oid p q now)) =
           (nodes b)(a := (nodes b a)\<lparr>order := (order (nodes b a))\<lparr>quantity := q\<rparr>\<rparr>)"
    and "order_lookup (snd (amend_order b oid p q now)) = order_lookup b"
    and "order_pool (snd (amend_order b oid p q now)) = order_pool b"
    and "\<exists>l0. side_find (book_side b (is_buy (order (nodes b a)))) (price (order (nodes b a))) = Some l0 \<and>
            a \<in> set (orders l0) \<and>
            book_side (snd (amend_order b oid p q now)) (is_buy (order (nodes b a))) =
              side_assign (price (order (nodes b a)))
                (l0\<lparr>total_quantity := total_quantity l0 - quantity (order (nodes b a)) + q\<rparr>)
                (book_side b (is_buy (order (nodes b a))))"
    and "book_side (snd (amend_order b oid p q now)) (\<not> is_buy (order (nodes b a))) =
           book_side b (\<not> is_buy (order (nodes b a)))"
    and "side_fifos (bid_levels (snd (amend_order b oid p q now))) = side_fifos (bid_levels b)"
    and "side_fifos (ask_levels (snd (amend_order b oid p q now))) = side_fifos (ask_levels b)"
proof -
  let ?b' = "snd (amend_order b oid p q now)"
  let ?buy = "is_buy (order (nodes b a))"
  let ?p = "price (order (nodes b a))"
  let ?s = "book_side b ?buy"
  note eq = amend_order_quantity_only [OF l e, of q now]
  from wf_lookup_live [OF w l] have live: "a \<in> set (live_addrs b)" by simp
  from w have ok: "side_ok (nodes b) ?buy ?s"
    by (simp add: wf_book_def book_side_def)
  from wf_live_side [OF w live] have mem: "a \<in> set (side_addrs ?s)"
    by (simp add: book_side_def split: if_splits)
  from w have dist: "distinct (side_addrs ?s)"
    by (simp add: wf_book_def live_addrs_def book_side_def)
  note u = update_quantity_in_place_ok [OF ok mem dist, of q]
  have side: "book_side ?b' ?buy = fst (update_quantity_in_place ?s (nodes b) a q)"
    and ns: "nodes ?b' = snd (update_quantity_in_place ?s (nodes b) a q)"
    unfolding eq by (simp_all add: book_side_def)
  from ns u(3) show "nodes ?b' =
      (nodes b)(a := (nodes b a)\<lparr>order := (order (nodes b a))\<lparr>quantity := q\<rparr>\<rparr>)"
    by simp
  show "order_lookup ?b' = order_lookup b" unfolding eq by simp
  show "order_pool ?b' = order_pool b" unfolding eq by simp
  show other: "book_side ?b' (\<not> ?buy) = book_side b (\<not> ?buy)"
    unfolding eq by (simp add: book_side_def)
  from side u(2) have same: "side_fifos (book_side ?b' ?buy) = side_fifos ?s" by simp
  from same other show "side_fifos (bid_levels ?b') = side_fifos (bid_levels b)"
    by (cases ?buy) (simp_all add: book_side_def)
  from same other show "side_fifos (ask_levels ?b') = side_fifos (ask_levels b)"
    by (cases ?buy) (simp_all add: book_side_def)
  from side_located [OF ok mem] obtain s1 s2 l0 where
    s: "?s = s1 @ (?p, l0) # s2" and a: "a \<in> set (orders l0)"
    and k: "?p \<notin> fst ` set s1" "?p \<notin> fst ` set s2"
    by blast
  have "fst (update_quantity_in_place ?s (nodes b) a q) =
      side_assign ?p (l0\<lparr>total_quantity := total_quantity l0 - quantity (order (nodes b a)) + q\<rparr>) ?s"
    unfolding s using k
    by (simp add: update_quantity_in_place_split side_assign_split Level_update_quantity_def)
  moreover have "side_find ?s ?p = Some l0"
    unfolding s using k by (simp add: side_find_split)
  ultimately show "\<exists>l0. side_find ?s ?p = Some l0 \<and> a \<in> set (orders l0) \<and>
      book_side ?b' ?buy =
        side_assign ?p (l0\<lparr>total_quantity := total_quantity l0 - quantity (order (nodes b a)) + q\<rparr>) ?s"
    using a side by auto
qed

lemma cancel_order_invalidate:
  "snd (cancel_order (b\<lparr>cache_valid := False\<rparr>) oid) =
   (case order_lookup b oid of None \<Rightarrow> b\<lparr>cache_valid := False\<rparr> | Some _ \<Rightarrow> snd (cancel_order b oid))"
  by (simp add: cancel_order_def Let_def split: option.splits)

lemma price_change_effect:
  assumes l: "order_lookup b oid = Some a" and e: "\<bar>double_sub (price (order (nodes b a))) p\<bar> > epsilon"
  shows "snd (amend_order b oid p q now) =
     (add_order (snd (cancel_order b oid)) (amended (order (nodes b a)) p q now))
     \<lparr>total_amends := total_amends b + 1\<rparr>"
  using amend_order_price_change [OF l e, of q now] l
  by (simp add: cancel_order_invalidate)

lemma add_order_tail:
  assumes w: "wf_book b" and fresh: "order_lookup b (order_id ord) = None"
  shows "\<exists>l. side_find (book_side (add_order b ord) (is_buy ord)) (price ord) = Some l \<and>
           orders l \<noteq> [] \<and> last (orders l) = new_addr b \<and>
           order_lookup (add_order b ord) (order_id ord) = Some (new_addr b) \<and>
           order (nodes (add_order b ord) (new_addr b)) = ord"
proof -
  let ?ns = "nodes (add_order b ord)"
  from w have srt: "sorted_side (is_buy ord) (book_side b (is_buy ord))"
    by (simp add: wf_book_def side_ok_def book_side_def)
  have side: "book_side (add_order b ord) (is_buy ord) =
      add_to_side (is_buy ord) (book_side b (is_buy ord)) ?ns (new_addr b)"
    by (simp add: book_side_def bid_levels_add_order ask_levels_add_order)
  have n: "order (?ns (new_addr b)) = ord"
    by (simp add: nodes_add_order OrderNode_init_def)
  from add_to_side_find [OF srt, of ?ns "new_addr b" "price ord"] n
  have "\<exists>l0. side_find (book_side (add_order b ord) (is_buy ord)) (price ord) =
      Some (Level_add_order ?ns l0 (new_addr b))"
    unfolding side by fastforce
  then obtain l0 where "side_find (book_side (add_order b ord) (is_buy ord)) (price ord) =
      Some (Level_add_order ?ns l0 (new_addr b))" ..
  moreover have "orders (Level_add_order ?ns l0 (new_addr b)) \<noteq> []"
    "last (orders (Level_add_order ?ns l0 (new_addr b))) = new_addr b"
    by (simp_all add: Level_add_order_def)
  moreover from fresh have "order_lookup (add_order b ord) (order_id ord) = Some (new_addr b)"
    by (simp add: order_lookup_add_order lookup_emplace_def)
  ultimately show ?thesis using n by blast
qed

subsection \<open>Order within a FIFO\<close>

lemma precedes_mem: "precedes xs a a' \<Longrightarrow> a \<in> set xs \<and> a' \<in> set xs"
  by (induction xs) (auto split: if_splits)

lemma precedes_snoc: "precedes xs a a' \<Longrightarrow> precedes (xs @ [c]) a a'"
  by (induction xs) (auto split: if_splits)

lemma precedes_new_tail: "a \<in> set xs \<Longrightarrow> precedes (xs @ [c]) a c"
  by (induction xs) auto

lemma precedes_remove1:
  "precedes xs a a' \<Longrightarrow> c \<noteq> a \<Longrightarrow> c \<noteq> a' \<Longrightarrow> precedes (remove1 c xs) a a'"
  by (induction xs) (auto split: if_splits)

lemma fifo_of_add_to_side:
  "sorted_side desc s \<Longrightarrow>
   fifo_of (add_to_side desc s ns a) k =
     (if k = price (order (ns a)) then fifo_of s k @ [a] else fifo_of s k)"
  by (simp add: fifo_of_def add_to_side_find Level_add_order_def Level_init_def
      split: option.splits)

lemma fifo_of_remove_from_side:
  assumes "side_ok ns desc s" and "a \<in> set (side_addrs s)" and "distinct (side_addrs s)"
  shows "fifo_of (remove_from_side s ns a) k =
     (if k = price (order (ns a)) then remove1 a (fifo_of s k) else fifo_of s k)"
proof -
  from remove_from_side_find [OF assms] obtain l0 where
    l0: "side_find s (price (order (ns a))) = Some l0"
    and f: "\<And>k. side_find (remove_from_side s ns a) k =
              (if k = price (order (ns a))
               then (if orders l0 = [a] then None else Some (Level_remove_order ns l0 a))
               else side_find s k)"
    by blast
  show ?thesis
    by (simp add: fifo_of_def f l0 Level_remove_order_def)
qed

lemma fifo_of_memD:
  "a \<in> set (fifo_of s k) \<Longrightarrow> \<exists>l. map_of s k = Some l \<and> a \<in> set (orders l)"
  by (cases "map_of s k") (simp_all add: fifo_of_def side_find_def)

lemma fifo_of_mem: "a \<in> set (fifo_of s k) \<Longrightarrow> a \<in> set (side_addrs s)"
  by (drule fifo_of_memD) (force simp: in_side_addrs dest!: map_of_SomeD)

lemma fifo_of_fifos: "fifo_of s k = (case map_of (side_fifos s) k of None \<Rightarrow> [] | Some xs \<Rightarrow> xs)"
  unfolding fifo_of_def side_find_def side_fifos_def by (induction s) auto

lemma book_fifo_mem: "a \<in> set (book_fifo b buy k) \<Longrightarrow> a \<in> set (live_addrs b)"
  by (auto simp: book_fifo_def book_side_def live_addrs_def dest: fifo_of_mem split: if_splits)

lemma wf_fifo_fields:
  assumes "wf_book b" and "a \<in> set (book_fifo b buy k)"
  shows "is_buy (order (nodes b a)) = buy \<and> price (order (nodes b a)) = k"
proof -
  from assms(2) obtain l where l: "map_of (book_side b buy) k = Some l" "a \<in> set (orders l)"
    unfolding book_fifo_def by (blast dest: fifo_of_memD)
  then have "(k, l) \<in> set (book_side b buy)" by (auto dest: map_of_SomeD)
  moreover from assms(1) have "side_ok (nodes b) buy (book_side b buy)"
    by (simp add: wf_book_def book_side_def)
  ultimately have "level_ok (nodes b) buy (k, l)" by (auto simp: side_ok_def)
  with l(2) show ?thesis by (auto simp: level_ok_def fifo_at_def)
qed

lemma book_fifo_add_order:
  assumes "wf_book b"
  shows "book_fifo (add_order b ord) buy k =
     (if buy = is_buy ord \<and> k = price ord then book_fifo b buy k @ [new_addr b]
      else book_fifo b buy k)"
proof -
  from assms have "sorted_side True (bid_levels b)" "sorted_side False (ask_levels b)"
    by (simp_all add: wf_book_def side_ok_def)
  then show ?thesis
    by (simp add: book_fifo_def book_side_def bid_levels_add_order ask_levels_add_order
        fifo_of_add_to_side nodes_add_order OrderNode_init_def)
qed

lemma book_fifo_cancel_order:
  assumes w: "wf_book b" and l: "order_lookup b oid = Some a"
  shows "book_fifo (snd (cancel_order b oid)) buy k =
     (if buy = is_buy (order (nodes b a)) \<and> k = price (order (nodes b a))
      then remove1 a (book_fifo b buy k) else book_fifo b buy k)"
proof -
  let ?buy = "is_buy (order (nodes b a))"
  from wf_lookup_live [OF w l] have live: "a \<in> set (live_addrs b)" by simp
  from w have ok: "side_ok (nodes b) ?buy (book_side b ?buy)"
    by (simp add: wf_book_def book_side_def)
  from wf_live_side [OF w live] have mem: "a \<in> set (side_addrs (book_side b ?buy))"
    by (simp add: book_side_def split: if_splits)
  from w have dist: "distinct (side_addrs (book_side b ?buy))"
    by (simp add: wf_book_def live_addrs_def book_side_def)
  have side: "book_side (snd (cancel_order b oid)) ?buy =
      remove_from_side (book_side b ?buy) (nodes b) a"
    and other: "book_side (snd (cancel_order b oid)) (\<not> ?buy) = book_side b (\<not> ?buy)"
    by (simp_all add: book_side_def bid_levels_cancel_order [OF l] ask_levels_cancel_order [OF l])
  show ?thesis
  proof (cases "buy = ?buy")
    case True
    then show ?thesis
      by (simp add: book_fifo_def side fifo_of_remove_from_side [OF ok mem dist])
  next
    case False
    then have "buy = (\<not> ?buy)" by auto
    with other False show ?thesis by (simp add: book_fifo_def)
  qed
qed

lemma book_fifo_quantity_only:
  assumes "wf_book b" and "order_lookup b oid = Some a"
    and "\<not> \<bar>double_sub (price (order (nodes b a))) p\<bar> > epsilon"
  shows "book_fifo (snd (amend_order b oid p q now)) buy k = book_fifo b buy k"
  using quantity_only_effect(6,7) [OF assms, of q now]
  by (cases buy) (simp_all add: book_fifo_def book_side_def fifo_of_fifos)

lemma keeps_cong:
  assumes "keeps b b' a" and "nodes b'' = nodes b'" and "bid_levels b'' = bid_levels b'"
    and "ask_levels b'' = ask_levels b'"
  shows "keeps b b'' a"
proof -
  from assms(3,4) have "book_fifo b'' buy k = book_fifo b' buy k" for buy k
    by (simp add: book_fifo_def book_side_def)
  with assms show ?thesis by (simp add: keeps_def live_addrs_def)
qed

lemma book_fifo_total_amends:
  "book_fifo (b\<lparr>total_amends := t\<rparr>) buy k = book_fifo b buy k"
  by (simp add: book_fifo_def book_side_def)

lemma keeps_trans: "keeps b b' a \<Longrightarrow> keeps b' b'' a \<Longrightarrow> keeps b b'' a"
  by (simp add: keeps_def)

lemma add_order_keeps:
  assumes "wf_book b" and "a \<in> set (live_addrs b)"
  shows "keeps b (add_order b ord) a"
  using assms sides_add_order(1,5) [OF assms(1)]
  by (auto simp: keeps_def nodes_add_order book_fifo_add_order)

lemma add_order_precedes:
  "wf_book b \<Longrightarrow> precedes (book_fifo b buy k) a a' \<Longrightarrow>
   precedes (book_fifo (add_order b ord) buy k) a a'"
  by (auto simp: book_fifo_add_order precedes_snoc)

lemma cancel_order_keeps:
  assumes w: "wf_book b" and live: "a \<in> set (live_addrs b)"
    and ne: "order_id (order (nodes b a)) \<noteq> oid"
  shows "keeps b (snd (cancel_order b oid)) a"
proof (cases "order_lookup b oid")
  case None
  with live show ?thesis by (simp add: cancel_order_unknown keeps_def)
next
  case (Some c)
  from wf_lookup_live [OF w Some] ne have "c \<noteq> a" by auto
  with live show ?thesis
    by (auto simp: keeps_def nodes_cancel_order live_cancel_order(4) [OF w Some]
        book_fifo_cancel_order [OF w Some])
qed

lemma cancel_order_precedes:
  assumes w: "wf_book b" and pr: "precedes (book_fifo b buy k) a a'"
    and ne: "order_id (order (nodes b a)) \<noteq> oid" "order_id (order (nodes b a')) \<noteq> oid"
  shows "precedes (book_fifo (snd (cancel_order b oid)) buy k) a a'"
proof (cases "order_lookup b oid")
  case None
  with pr show ?thesis by (simp add: cancel_order_unknown)
next
  case (Some c)
  from wf_lookup_live [OF w Some] ne have "c \<noteq> a" "c \<noteq> a'" by auto
  with pr show ?thesis
    by (auto simp: book_fifo_cancel_order [OF w Some] precedes_remove1)
qed

lemma amend_order_keeps:
  assumes w: "wf_book b" and live: "a \<in> set (live_addrs b)"
    and ne: "order_id (order (nodes b a)) \<noteq> oid"
  shows "keeps b (snd (amend_order b oid p q now)) a"
proof (cases "order_lookup b oid")
  case None
  with live show ?thesis by (simp add: amend_order_unknown keeps_def)
next
  case (Some c)
  from wf_lookup_live [OF w Some] ne have ca: "c \<noteq> a" by auto
  show ?thesis
  proof (cases "\<bar>double_sub (price (order (nodes b c))) p\<bar> > epsilon")
    case True
    let ?bc = "snd (cancel_order b oid)"
    have k1: "keeps b ?bc a" by (rule cancel_order_keeps [OF w live ne])
    then have "a \<in> set (live_addrs ?bc)" by (simp add: keeps_def)
    from add_order_keeps [OF wf_cancel_order [OF w] this]
    have "keeps ?bc (add_order ?bc (amended (order (nodes b c)) p q now)) a" .
    with k1 have "keeps b (add_order ?bc (amended (order (nodes b c)) p q now)) a"
      by (rule keeps_trans)
    then show ?thesis
      by (rule keeps_cong) (simp_all add: price_change_effect [OF Some True])
  next
    case False
    have "set (live_addrs (snd (amend_order b oid p q now))) = set (live_addrs b)"
      using quantity_only_effect(6,7) [OF w Some False, of q now]
      by (simp add: live_addrs_def side_addrs_fifos)
    with live ca show ?thesis
      by (simp add: keeps_def quantity_only_effect(1) [OF w Some False]
          book_fifo_quantity_only [OF w Some False])
  qed
qed

lemma amend_order_precedes:
  assumes w: "wf_book b" and pr: "precedes (book_fifo b buy k) a a'"
    and ne: "order_id (order (nodes b a)) \<noteq> oid" "order_id (order (nodes b a')) \<noteq> oid"
  shows "precedes (book_fifo (snd (amend_order b oid p q now)) buy k) a a'"
proof (cases "order_lookup b oid")
  case None
  with pr show ?thesis by (simp add: amend_order_unknown)
next
  case (Some c)
  show ?thesis
  proof (cases "\<bar>double_sub (price (order (nodes b c))) p\<bar> > epsilon")
    case True
    let ?bc = "snd (cancel_order b oid)"
    from cancel_order_precedes [OF w pr ne]
    have "precedes (book_fifo ?bc buy k) a a'" .
    from add_order_precedes [OF wf_cancel_order [OF w] this]
    show ?thesis
      by (simp add: price_change_effect [OF Some True] book_fifo_total_amends)
  next
    case False
    with pr show ?thesis by (simp add: book_fifo_quantity_only [OF w Some False])
  qed
qed

lemma read_keeps:
  "a \<in> set (live_addrs b) \<Longrightarrow> keeps b (snd (snd (get_snapshot b d bs as g1 g2))) a"
  "a \<in> set (live_addrs b) \<Longrightarrow> keeps b (snd (get_best_prices b)) a"
  by (simp_all add: keeps_def book_get_snapshot get_best_prices_def Let_def live_addrs_def
      book_fifo_def book_side_def)

lemma read_book_fifo:
  "book_fifo (snd (snd (get_snapshot b d bs as g1 g2))) buy k = book_fifo b buy k"
  "book_fifo (snd (get_best_prices b)) buy k = book_fifo b buy k"
  by (simp_all add: book_get_snapshot get_best_prices_def Let_def book_fifo_def book_side_def)

lemma apply_op_keeps:
  assumes "wf_book b" and "a \<in> set (live_addrs b)"
    and "\<not> names x (order_id (order (nodes b a)))"
  shows "keeps b (apply_op b x) a"
  using assms
  by (cases x) (simp_all add: add_order_keeps cancel_order_keeps amend_order_keeps read_keeps)

lemma apply_op_precedes:
  assumes "wf_book b" and "precedes (book_fifo b buy k) a a'"
    and "\<not> names x (order_id (order (nodes b a)))"
    and "\<not> names x (order_id (order (nodes b a')))"
  shows "precedes (book_fifo (apply_op b x) buy k) a a'"
  using assms
  by (cases x) (simp_all add: add_order_precedes cancel_order_precedes amend_order_precedes
      read_book_fifo)

lemma run_ops_keeps:
  assumes "wf_book b" and "a \<in> set (live_addrs b)"
    and "\<forall>x \<in> set xs. \<not> names x (order_id (order (nodes b a)))"
  shows "keeps b (run_ops b xs) a"
  using assms
proof (induction xs arbitrary: b)
  case Nil
  then show ?case by (simp add: run_ops_def keeps_def)
next
  case (Cons x xs)
  from Cons.prems have k: "keeps b (apply_op b x) a" by (simp add: apply_op_keeps)
  then have n: "nodes (apply_op b x) a = nodes b a" "a \<in> set (live_addrs (apply_op b x))"
    by (simp_all add: keeps_def)
  from Cons.prems n have "keeps (apply_op b x) (run_ops (apply_op b x) xs) a"
    by (intro Cons.IH wf_apply_op) simp_all
  with k show ?case by (simp add: run_ops_def keeps_trans)
qed

lemma run_ops_precedes:
  assumes "wf_book b" and "precedes (book_fifo b buy k) a a'"
    and "\<forall>x \<in> set xs. \<not> names x (order_id (order (nodes b a))) \<and>
           \<not> names x (order_id (order (nodes b a')))"
  shows "precedes (book_fifo (run_ops b xs) buy k) a a'"
  using assms
proof (induction xs arbitrary: b)
  case Nil
  then show ?case by (simp add: run_ops_def)
next
  case (Cons x xs)
  from precedes_mem [OF Cons.prems(2)] have live: "a \<in> set (live_addrs b)"
    "a' \<in> set (live_addrs b)"
    by (auto dest: book_fifo_mem)
  from Cons.prems live have "keeps b (apply_op b x) a" "keeps b (apply_op b x) a'"
    by (simp_all add: apply_op_keeps)
  then have n: "nodes (apply_op b x) a = nodes b a" "nodes (apply_op b x) a' = nodes b a'"
    by (simp_all add: keeps_def)
  from Cons.prems have "precedes (book_fifo (apply_op b x) buy k) a a'"
    by (intro apply_op_precedes) simp_all
  with Cons.prems n have "precedes (book_fifo (run_ops (apply_op b x) xs) buy k) a a'"
    by (intro Cons.IH wf_apply_op) simp_all
  then show ?case by (simp add: run_ops_def)
qed

subsection \<open>Counters\<close>

lemma total_amends_amend_order:
  assumes "order_lookup b oid = Some a"
  shows "total_amends (snd (amend_order b oid p q now)) = total_amends b + 1"
proof (cases "\<bar>double_sub (price (order (nodes b a))) p\<bar> > epsilon")
  case True
  then show ?thesis by (simp add: amend_order_price_change [OF assms True])
next
  case False
  then show ?thesis by (simp add: amend_order_quantity_only [OF assms False])
qed

subsection \<open>Completeness of the lookup table\<close>








subsection \<open>Facts about the concrete books\<close>

lemma book5_wf: "wf_book book5"
  by (simp add: book5_def wf_reachable)

lemma book5_eval:
  "order_lookup book5 1 = Some 0" "order_lookup book5 2 = Some 1" "order_lookup book5 9 = None"
  "order (nodes book5 0) = mk_order 1 True 100 100"
  "order (nodes book5 1) = mk_order 2 True 99 200"
  "side_fifos (bid_levels book5) = [(100, [0, 2]), (99, [1])]"
  "side_fifos (ask_levels book5) = [(101, [3]), (102, [4])]"
  "map level_view (bid_levels book5) =
     [\<lparr>pl_price = 100, pl_total_quantity = 150\<rparr>, \<lparr>pl_price = 99, pl_total_quantity = 200\<rparr>]"
  by (simp_all add: book5_def eval_defs side_fifos_def level_view_def)


lemma book_tiny_wf: "wf_book book_tiny"
  unfolding book_tiny_def by (rule wf_add_order [OF wf_new_book])

lemma book_tiny_eval:
  "order_lookup book_tiny 1 = Some 0"
  "price (order (nodes book_tiny 0)) = epsilon"
  "total_orders book_tiny = 1" "total_cancels book_tiny = 0" "total_amends book_tiny = 0"
  by (simp_all add: book_tiny_def eval_defs)

section \<open>The claims\<close>

text \<open>
  C1 (as stated: adding an order whose ID is already in the lookup table fails and leaves
  the whole book unchanged). The source has no such check and \<open>add_order\<close> returns
  nothing: on \<open>book1\<close>, which holds bid 1 at price 100, adding a second order with ID 1
  queues a second node in the same level and doubles the level's total.
\<close>

theorem add_duplicate_id_counterexample:
  "order_lookup book1 (order_id (mk_order 1 True 100 100)) = Some 0 \<and>
   side_fifos (bid_levels book1) = [(100, [0])] \<and>
   map level_view (bid_levels book1) = [\<lparr>pl_price = 100, pl_total_quantity = 100\<rparr>] \<and>
   side_fifos (bid_levels (add_order book1 (mk_order 1 True 100 100))) = [(100, [0, 1])] \<and>
   map level_view (bid_levels (add_order book1 (mk_order 1 True 100 100))) =
     [\<lparr>pl_price = 100, pl_total_quantity = 200\<rparr>] \<and>
   add_order book1 (mk_order 1 True 100 100) \<noteq> book1"
proof -
  have e: "order_lookup book1 (order_id (mk_order 1 True 100 100)) = Some 0"
    "side_fifos (bid_levels book1) = [(100, [0])]"
    "map level_view (bid_levels book1) = [\<lparr>pl_price = 100, pl_total_quantity = 100\<rparr>]"
    "side_fifos (bid_levels (add_order book1 (mk_order 1 True 100 100))) = [(100, [0, 1])]"
    "map level_view (bid_levels (add_order book1 (mk_order 1 True 100 100))) =
       [\<lparr>pl_price = 100, pl_total_quantity = 200\<rparr>]"
    by (simp_all add: book1_def eval_defs side_fifos_def level_view_def)
  from e(2,4) have "add_order book1 (mk_order 1 True 100 100) \<noteq> book1" by auto
  with e show ?thesis by simp
qed

text \<open>
  C1 (amended). Adding an order whose ID is already in the lookup table leaves the lookup
  table unchanged, so the ID keeps referring to the earlier node; the order is nevertheless
  accepted: a node for it is constructed at a fresh address and appended to the FIFO of the
  level at its price on its side (a new level if there was none), that level's
  \<open>total_quantity\<close> and \<open>order_count\<close> grow by the order's quantity and by one, every other
  level and the other side are unchanged, and \<open>total_orders\<close> is incremented.
\<close>

theorem add_duplicate_appends_node:
  assumes w: "wf_book b" and dup: "order_lookup b (order_id ord) \<noteq> None"
  shows "order_lookup (add_order b ord) = order_lookup b \<and>
     new_addr b \<notin> set (live_addrs b) \<and>
     nodes (add_order b ord) = (nodes b)(new_addr b := OrderNode_init ord) \<and>
     side_find (book_side (add_order b ord) (is_buy ord)) (price ord) =
       Some (Level_add_order (nodes (add_order b ord))
              (case side_find (book_side b (is_buy ord)) (price ord) of
                 None \<Rightarrow> Level_init (price ord) | Some l \<Rightarrow> l)
              (new_addr b)) \<and>
     (\<forall>k. k \<noteq> price ord \<longrightarrow>
        side_find (book_side (add_order b ord) (is_buy ord)) k =
        side_find (book_side b (is_buy ord)) k) \<and>
     book_side (add_order b ord) (\<not> is_buy ord) = book_side b (\<not> is_buy ord) \<and>
     total_orders (add_order b ord) = total_orders b + 1"
proof -
  let ?ns = "nodes (add_order b ord)"
  from dup have "order_lookup (add_order b ord) = order_lookup b"
    by (auto simp: order_lookup_add_order lookup_emplace_def)
  moreover note sides_add_order(1) [OF w] nodes_add_order [of b ord]
  moreover
  from w have srt: "sorted_side (is_buy ord) (book_side b (is_buy ord))"
    by (simp add: wf_book_def side_ok_def book_side_def)
  have side: "book_side (add_order b ord) (is_buy ord) =
      add_to_side (is_buy ord) (book_side b (is_buy ord)) ?ns (new_addr b)"
    by (simp add: book_side_def bid_levels_add_order ask_levels_add_order)
  have n: "price (order (?ns (new_addr b))) = price ord"
    by (simp add: nodes_add_order OrderNode_init_def)
  have "side_find (book_side (add_order b ord) (is_buy ord)) k =
      (if k = price ord
       then Some (Level_add_order ?ns
              (case side_find (book_side b (is_buy ord)) k of
                 None \<Rightarrow> Level_init k | Some l \<Rightarrow> l) (new_addr b))
       else side_find (book_side b (is_buy ord)) k)" for k
    unfolding side add_to_side_find [OF srt] n ..
  moreover have "book_side (add_order b ord) (\<not> is_buy ord) = book_side b (\<not> is_buy ord)"
    by (simp add: book_side_def bid_levels_add_order ask_levels_add_order)
  ultimately show ?thesis by (simp add: counters_add_order)
qed

theorem add_duplicate_appends_node_witness:
  "wf_book book5 \<and> order_lookup book5 (order_id (mk_order 1 False 101 30)) \<noteq> None \<and>
   order_lookup (add_order book5 (mk_order 1 False 101 30)) = order_lookup book5 \<and>
   new_addr book5 = 5 \<and>
   side_fifos (ask_levels (add_order book5 (mk_order 1 False 101 30))) =
     [(101, [3, 5]), (102, [4])] \<and>
   total_orders (add_order book5 (mk_order 1 False 101 30)) = total_orders book5 + 1"
proof -
  have h: "order_lookup book5 (order_id (mk_order 1 False 101 30)) \<noteq> None"
    by (simp add: book5_eval mk_order_def)
  have e: "new_addr book5 = 5"
    "side_fifos (ask_levels (add_order book5 (mk_order 1 False 101 30))) =
       [(101, [3, 5]), (102, [4])]"
    by (simp_all add: book5_def eval_defs side_fifos_def new_addr_def)
  from add_duplicate_appends_node [OF book5_wf h] h e book5_wf show ?thesis by simp
qed

text \<open>
  C2 (as stated: an amend to quantity zero returns false and mutates nothing). The source
  treats zero like any other quantity: on \<open>book5\<close> the amend of order 1 to quantity 0 at its
  own price returns true, sets the node's quantity to 0 and lowers the level's total from 150
  to 50.
\<close>

theorem amend_zero_quantity_counterexample:
  "order_lookup book5 1 = Some 0 \<and>
   fst (amend_order book5 1 100 0 9) = True \<and>
   map level_view (bid_levels book5) =
     [\<lparr>pl_price = 100, pl_total_quantity = 150\<rparr>, \<lparr>pl_price = 99, pl_total_quantity = 200\<rparr>] \<and>
   map level_view (bid_levels (snd (amend_order book5 1 100 0 9))) =
     [\<lparr>pl_price = 100, pl_total_quantity = 50\<rparr>, \<lparr>pl_price = 99, pl_total_quantity = 200\<rparr>] \<and>
   quantity (order (nodes book5 0)) = 100 \<and>
   quantity (order (nodes (snd (amend_order book5 1 100 0 9)) 0)) = 0 \<and>
   total_amends book5 = 0 \<and> total_amends (snd (amend_order book5 1 100 0 9)) = 1"
  by (simp add: book5_def eval_defs level_view_def)

text \<open>
  C2 (amended). An amend of a resting order to quantity zero is accepted: it returns true,
  increments \<open>total_amends\<close>, and afterwards the ID is still in the lookup table, mapped to
  a node queued in the ladder whose quantity is 0; when the price is within \<open>1 / 10 ^ 9\<close> of
  the order's price it is the same node and no FIFO changes.
\<close>

theorem amend_zero_quantity_accepted:
  assumes w: "wf_book b" and l: "order_lookup b oid = Some a"
  shows "fst (amend_order b oid p 0 now) \<and>
     total_amends (snd (amend_order b oid p 0 now)) = total_amends b + 1 \<and>
     (\<exists>a'. order_lookup (snd (amend_order b oid p 0 now)) oid = Some a' \<and>
        a' \<in> set (live_addrs (snd (amend_order b oid p 0 now))) \<and>
        order_id (order (nodes (snd (amend_order b oid p 0 now)) a')) = oid \<and>
        quantity (order (nodes (snd (amend_order b oid p 0 now)) a')) = 0) \<and>
     (\<bar>p - price (order (nodes b a))\<bar> \<le> 1 / 10 ^ 9 \<longrightarrow>
        order_lookup (snd (amend_order b oid p 0 now)) oid = Some a \<and>
        side_fifos (bid_levels (snd (amend_order b oid p 0 now))) = side_fifos (bid_levels b) \<and>
        side_fifos (ask_levels (snd (amend_order b oid p 0 now))) = side_fifos (ask_levels b))"
proof -
  let ?b' = "snd (amend_order b oid p 0 now)"
  have w': "wf_book ?b'" by (rule wf_amend_order [OF w])
  from l have r: "fst (amend_order b oid p 0 now)" by (simp add: fst_amend_order)
  have t: "total_amends ?b' = total_amends b + 1"
    by (rule total_amends_amend_order [OF l])
  show ?thesis
  proof (cases "\<bar>double_sub (price (order (nodes b a))) p\<bar> > epsilon")
    case True
    with within_spec_epsilon [of p "price (order (nodes b a))"]
    have far: "\<not> \<bar>p - price (order (nodes b a))\<bar> \<le> 1 / 10 ^ 9" by blast
    let ?o = "amended (order (nodes b a)) p 0 now"
    let ?bc = "snd (cancel_order b oid)"
    from wf_lookup_live [OF w l] have ida: "order_id (order (nodes b a)) = oid" by simp
    have "order_lookup ?bc (order_id ?o) = None"
      by (simp add: amended_def ida order_lookup_cancel_order)
    from add_order_tail [OF wf_cancel_order [OF w] this]
    have "order_lookup (add_order ?bc ?o) oid = Some (new_addr ?bc)"
      "order (nodes (add_order ?bc ?o) (new_addr ?bc)) = ?o"
      by (auto simp: amended_def ida)
    then have la: "order_lookup ?b' oid = Some (new_addr ?bc)"
      and q: "quantity (order (nodes ?b' (new_addr ?bc))) = 0"
      by (simp_all add: price_change_effect [OF l True] amended_def)
    from wf_lookup_live [OF w' la] la q r t far show ?thesis by auto
  next
    case False
    note e = quantity_only_effect [OF w l False, of 0 now]
    from e(2) l have la: "order_lookup ?b' oid = Some a" by simp
    have q: "quantity (order (nodes ?b' a)) = 0" by (simp add: e(1))
    from wf_lookup_live [OF w' la] la q r t e(6,7) show ?thesis by auto
  qed
qed

theorem amend_zero_quantity_accepted_witness:
  "wf_book book5 \<and> order_lookup book5 1 = Some 0 \<and>
   \<bar>100 - price (order (nodes book5 0))\<bar> \<le> 1 / 10 ^ 9 \<and>
   fst (amend_order book5 1 100 0 9) \<and>
   total_amends (snd (amend_order book5 1 100 0 9)) = total_amends book5 + 1 \<and>
   order_lookup (snd (amend_order book5 1 100 0 9)) 1 = Some 0 \<and>
   side_fifos (bid_levels (snd (amend_order book5 1 100 0 9))) = [(100, [0, 2]), (99, [1])] \<and>
   quantity (order (nodes (snd (amend_order book5 1 100 0 9)) 0)) = 0"
proof -
  have h: "\<bar>100 - price (order (nodes book5 0))\<bar> \<le> 1 / 10 ^ 9"
    by (simp add: book5_eval mk_order_def)
  have q: "quantity (order (nodes (snd (amend_order book5 1 100 0 9)) 0)) = 0"
    by (simp add: book5_def eval_defs)
  from amend_zero_quantity_accepted [OF book5_wf book5_eval(1), of 100 9] h q book5_wf
  show ?thesis by (simp add: book5_eval)
qed




text \<open>
  C4. For a resting order at price \<open>p\<close>, an amend to a price within \<open>1 / 10 ^ 9\<close> of \<open>p\<close>
  and a quantity \<open>q > 0\<close> returns true, replaces the quantity of the node in place (every
  other node and the lookup table are unchanged), changes the node's level only in its
  \<open>total_quantity\<close>, which becomes the old total minus the old quantity plus \<open>q\<close>, and
  leaves every FIFO of both sides as it was.
\<close>

theorem amend_quantity_only_in_place:
  assumes "wf_book b" and "order_lookup b oid = Some a"
    and "\<bar>p - price (order (nodes b a))\<bar> \<le> 1 / 10 ^ 9" and "0 < q"
  shows "fst (amend_order b oid p q now) \<and>
     nodes (snd (amend_order b oid p q now)) =
       (nodes b)(a := (nodes b a)\<lparr>order := (order (nodes b a))\<lparr>quantity := q\<rparr>\<rparr>) \<and>
     order_lookup (snd (amend_order b oid p q now)) = order_lookup b \<and>
     (\<exists>l0. side_find (book_side b (is_buy (order (nodes b a)))) (price (order (nodes b a))) = Some l0 \<and>
        a \<in> set (orders l0) \<and>
        book_side (snd (amend_order b oid p q now)) (is_buy (order (nodes b a))) =
          side_assign (price (order (nodes b a)))
            (l0\<lparr>total_quantity := total_quantity l0 - quantity (order (nodes b a)) + q\<rparr>)
            (book_side b (is_buy (order (nodes b a))))) \<and>
     book_side (snd (amend_order b oid p q now)) (\<not> is_buy (order (nodes b a))) =
       book_side b (\<not> is_buy (order (nodes b a))) \<and>
     side_fifos (bid_levels (snd (amend_order b oid p q now))) = side_fifos (bid_levels b) \<and>
     side_fifos (ask_levels (snd (amend_order b oid p q now))) = side_fifos (ask_levels b)"
proof -
  from assms(3) have e: "\<not> \<bar>double_sub (price (order (nodes b a))) p\<bar> > epsilon"
    by (rule within_spec_epsilon)
  from assms(2) have "fst (amend_order b oid p q now)" by (simp add: fst_amend_order)
  with quantity_only_effect [OF assms(1,2) e, of q now] show ?thesis by blast
qed

theorem amend_quantity_only_in_place_witness:
  "wf_book book5 \<and> order_lookup book5 1 = Some 0 \<and>
   \<bar>100 - price (order (nodes book5 0))\<bar> \<le> 1 / 10 ^ 9 \<and> (0::u64) < 60 \<and>
   fst (amend_order book5 1 100 60 9) \<and>
   order_lookup (snd (amend_order book5 1 100 60 9)) = order_lookup book5 \<and>
   side_fifos (bid_levels (snd (amend_order book5 1 100 60 9))) = [(100, [0, 2]), (99, [1])] \<and>
   side_fifos (ask_levels (snd (amend_order book5 1 100 60 9))) = [(101, [3]), (102, [4])] \<and>
   map level_view (bid_levels (snd (amend_order book5 1 100 60 9))) =
     [\<lparr>pl_price = 100, pl_total_quantity = 110\<rparr>, \<lparr>pl_price = 99, pl_total_quantity = 200\<rparr>]"
proof -
  have h: "\<bar>100 - price (order (nodes book5 0))\<bar> \<le> 1 / 10 ^ 9" "(0::u64) < 60"
    by (simp_all add: book5_eval mk_order_def)
  have e: "map level_view (bid_levels (snd (amend_order book5 1 100 60 9))) =
     [\<lparr>pl_price = 100, pl_total_quantity = 110\<rparr>, \<lparr>pl_price = 99, pl_total_quantity = 200\<rparr>]"
    by (simp add: book5_def eval_defs level_view_def)
  from amend_quantity_only_in_place [OF book5_wf book5_eval(1) h, of 9] h e book5_wf
  show ?thesis by (simp add: book5_eval)
qed




text \<open>
  C6. Let order A be added, then any operations, then order B at the same price on the same
  side, then any operations, where no operation of the two sequences names the ID of A or of
  B. Then both nodes are queued in the level at that price and A's node is ahead of B's,
  whatever the timestamps of A and B are.
\<close>

theorem fifo_time_priority:
  assumes w: "wf_book b"
    and same: "price ordB = price ordA" "is_buy ordB = is_buy ordA"
    and quiet: "\<forall>x \<in> set xs1 \<union> set xs2.
                  \<not> names x (order_id ordA) \<and> \<not> names x (order_id ordB)"
  shows "\<exists>a a'.
     precedes
       (book_fifo (run_ops (add_order (run_ops (add_order b ordA) xs1) ordB) xs2)
          (is_buy ordA) (price ordA)) a a' \<and>
     order (nodes (run_ops (add_order (run_ops (add_order b ordA) xs1) ordB) xs2) a) = ordA \<and>
     order (nodes (run_ops (add_order (run_ops (add_order b ordA) xs1) ordB) xs2) a') = ordB"
proof -
  let ?a = "new_addr b"
  let ?b1 = "add_order b ordA"
  let ?b2 = "run_ops ?b1 xs1"
  let ?a' = "new_addr ?b2"
  let ?b3 = "add_order ?b2 ordB"
  let ?b4 = "run_ops ?b3 xs2"
  have w1: "wf_book ?b1" by (rule wf_add_order [OF w])
  have w2: "wf_book ?b2" by (rule wf_run_ops [OF w1])
  have w3: "wf_book ?b3" by (rule wf_add_order [OF w2])
  have n1: "order (nodes ?b1 ?a) = ordA" by (simp add: nodes_add_order OrderNode_init_def)
  have f1: "?a \<in> set (book_fifo ?b1 (is_buy ordA) (price ordA))"
    by (simp add: book_fifo_add_order [OF w])
  then have l1: "?a \<in> set (live_addrs ?b1)" by (rule book_fifo_mem)
  from quiet n1 have "\<forall>x \<in> set xs1. \<not> names x (order_id (order (nodes ?b1 ?a)))" by simp
  from run_ops_keeps [OF w1 l1 this] f1 n1
  have n2: "order (nodes ?b2 ?a) = ordA"
    and f2: "?a \<in> set (book_fifo ?b2 (is_buy ordA) (price ordA))"
    and l2: "?a \<in> set (live_addrs ?b2)"
    by (simp_all add: keeps_def)
  from sides_add_order(1) [OF w2] l2 have ne: "?a' \<noteq> ?a" by auto
  from ne n2 have n3: "order (nodes ?b3 ?a) = ordA" "order (nodes ?b3 ?a') = ordB"
    by (simp_all add: nodes_add_order OrderNode_init_def)
  from f2 same have p3: "precedes (book_fifo ?b3 (is_buy ordA) (price ordA)) ?a ?a'"
    by (simp add: book_fifo_add_order [OF w2] precedes_new_tail)
  from precedes_mem [OF p3] have l3: "?a \<in> set (live_addrs ?b3)" "?a' \<in> set (live_addrs ?b3)"
    by (auto dest: book_fifo_mem)
  from quiet n3 have q3: "\<forall>x \<in> set xs2. \<not> names x (order_id (order (nodes ?b3 ?a))) \<and>
      \<not> names x (order_id (order (nodes ?b3 ?a')))" by simp
  from run_ops_precedes [OF w3 p3 q3]
  have p4: "precedes (book_fifo ?b4 (is_buy ordA) (price ordA)) ?a ?a'" .
  from q3 run_ops_keeps [OF w3 l3(1), of xs2] run_ops_keeps [OF w3 l3(2), of xs2] n3
  have "order (nodes ?b4 ?a) = ordA" "order (nodes ?b4 ?a') = ordB"
    by (simp_all add: keeps_def)
  with p4 show ?thesis by blast
qed

theorem fifo_time_priority_witness:
  "wf_book new_book \<and> price order_B = price order_A \<and> is_buy order_B = is_buy order_A \<and>
   list_all (\<lambda>x. \<not> names x (order_id order_A) \<and> \<not> names x (order_id order_B))
     ([Add (mk_order 2 True 99 10), Cancel 2] @ [Amend 7 1 1 1, Snapshot 3]) \<and>
   timestamp_ns order_B < timestamp_ns order_A \<and>
   book_fifo book_AB True 100 = [0, 1] \<and>
   (\<exists>a a'. precedes (book_fifo book_AB (is_buy order_A) (price order_A)) a a' \<and>
      order (nodes book_AB a) = order_A \<and> order (nodes book_AB a') = order_B)"
proof -
  have q: "\<forall>x \<in> set [Add (mk_order 2 True 99 10), Cancel 2] \<union> set [Amend 7 1 1 1, Snapshot 3].
      \<not> names x (order_id order_A) \<and> \<not> names x (order_id order_B)"
    by (simp add: order_A_def order_B_def mk_order_def)
  have s: "price order_B = price order_A" "is_buy order_B = is_buy order_A"
    "timestamp_ns order_B < timestamp_ns order_A"
    by (simp_all add: order_A_def order_B_def mk_order_def)
  have e: "book_fifo book_AB True 100 = [0, 1]"
    by (simp add: book_AB_def order_A_def order_B_def eval_defs book_fifo_def book_side_def
        fifo_of_def)
  from fifo_time_priority [OF wf_new_book s(1,2) q] q s e wf_new_book show ?thesis
    by (simp add: book_AB_def)
qed

text \<open>
  C7. After every public operation (add, cancel, amend, snapshot, best prices) every level on
  either side of the ladder has a non-empty FIFO, a \<open>total_quantity\<close> equal to the sum of
  the quantities of the nodes in its FIFO (a sum of \<open>u64\<close> values, so modulo \<open>2 ^ 64\<close>) and
  an \<open>order_count\<close> equal to the length of its FIFO; in particular a level whose FIFO
  empties does not stay in the ladder. This holds of every book reached from the empty book
  by any sequence of operations, and after every operation on a well-formed book.
\<close>

theorem levels_consistent_after_ops:
  "levels_consistent (run_ops new_book xs) \<and> (wf_book b \<longrightarrow> levels_consistent (apply_op b x))"
  using wf_levels_consistent [OF wf_reachable, of xs] wf_levels_consistent [OF wf_apply_op, of b x]
  by simp

theorem levels_consistent_after_ops_witness:
  "wf_book book5 \<and>
   map (\<lambda>kv. (fst kv, total_quantity (snd kv), orders (snd kv), order_count (snd kv)))
     (bid_levels (apply_op book5 (Cancel 2))) = [(100, 150, [0, 2], 2)] \<and>
   levels_consistent (apply_op book5 (Cancel 2))"
proof -
  have w: "wf_book book5" by (simp add: book5_def wf_reachable)
  have "map (\<lambda>kv. (fst kv, total_quantity (snd kv), orders (snd kv), order_count (snd kv)))
     (bid_levels (apply_op book5 (Cancel 2))) = [(100, 150, [0, 2], 2)]"
    by (simp add: book5_def eval_defs)
  with w levels_consistent_after_ops [of "[]" book5 "Cancel 2"] show ?thesis by simp
qed

text \<open>
  C8 (as stated). \<open>get_snapshot\<close> would return, for every depth \<open>k\<close>, the first
  \<open>min k n\<close> levels of each side, and all of them when \<open>k\<close> exceeds their number. For
  the depth \<open>2 ^ 60\<close>, above \<open>vector_max_size\<close>, the first \<^verbatim>\<open>reserve\<close> throws
  \<^verbatim>\<open>std::length_error\<close>: on a book with two levels on each side the call does not
  return and leaves both buffers empty.
\<close>

theorem get_snapshot_depth_counterexample:
  "wf_book book5 \<and> length (bid_levels book5) = 2 \<and> length (ask_levels book5) = 2 \<and>
   2 < unat (2 ^ 60 :: u64) \<and>
   fst (get_snapshot book5 (2 ^ 60) [] [] True True) = Inl Length_error \<and>
   fst (snd (get_snapshot book5 (2 ^ 60) [] [] True True)) = ([], [])"
proof -
  have n: "length (bid_levels book5) = 2" "length (ask_levels book5) = 2"
    by (simp_all add: book5_def eval_defs)
  have u: "unat (2 ^ 60 :: u64) = 2 ^ 60" by simp
  have "get_snapshot book5 (2 ^ 60) [] [] True True =
      (Inl Length_error, ([], []), book5\<lparr>total_snapshots := total_snapshots book5 + 1\<rparr>)"
    by (simp add: get_snapshot_def vector_reserve_def vector_max_size_def vector_clear_def u)
  with book5_wf n u show ?thesis by simp
qed

text \<open>
  C8 (amended). For a depth \<open>k\<close> of at most \<open>vector_max_size = 2 ^ 59 - 1\<close> for which
  both \<^verbatim>\<open>reserve\<close> calls obtain their storage, \<open>get_snapshot\<close> returns, whatever the
  output buffers held, the first \<open>min k n\<close> entries \<open>(price, total_quantity)\<close> of each side
  in ladder order: bids in strictly decreasing and asks in strictly increasing price order;
  with \<open>k\<close> at least the number of levels it returns all of them and nothing else. For a
  larger depth the call ends with \<^verbatim>\<open>std::length_error\<close>, and for a refused allocation
  with \<^verbatim>\<open>std::bad_alloc\<close>, both buffers being left empty. However the call ends, the
  book is left with only \<open>total_snapshots\<close> incremented, so the ladder, the levels, the
  store and the lookup table are as before.
\<close>

theorem get_snapshot_top_levels:
  assumes w: "wf_book b"
  shows
   "(unat k \<le> vector_max_size \<longrightarrow>
       fst (get_snapshot b k bids asks True True) = Inr () \<and>
       fst (snd (get_snapshot b k bids asks True True)) =
         (take (unat k) (map level_view (bid_levels b)),
          take (unat k) (map level_view (ask_levels b))) \<and>
       length (fst (fst (snd (get_snapshot b k bids asks True True)))) =
         min (unat k) (length (bid_levels b)) \<and>
       length (snd (fst (snd (get_snapshot b k bids asks True True)))) =
         min (unat k) (length (ask_levels b)) \<and>
       sorted_wrt (\<lambda>x y. x > y)
         (map pl_price (fst (fst (snd (get_snapshot b k bids asks True True))))) \<and>
       sorted_wrt (\<lambda>x y. x < y)
         (map pl_price (snd (fst (snd (get_snapshot b k bids asks True True))))) \<and>
       (length (bid_levels b) \<le> unat k \<longrightarrow>
          fst (fst (snd (get_snapshot b k bids asks True True))) = map level_view (bid_levels b)) \<and>
       (length (ask_levels b) \<le> unat k \<longrightarrow>
          snd (fst (snd (get_snapshot b k bids asks True True))) = map level_view (ask_levels b))) \<and>
    (vector_max_size < unat k \<longrightarrow>
       fst (get_snapshot b k bids asks g1 g2) = Inl Length_error \<and>
       fst (snd (get_snapshot b k bids asks g1 g2)) = ([], [])) \<and>
    (unat k \<le> vector_max_size \<and> \<not> (g1 \<and> g2) \<longrightarrow>
       fst (get_snapshot b k bids asks g1 g2) = Inl Bad_alloc \<and>
       fst (snd (get_snapshot b k bids asks g1 g2)) = ([], [])) \<and>
    snd (snd (get_snapshot b k bids asks g1 g2)) = b\<lparr>total_snapshots := total_snapshots b + 1\<rparr>"
proof (intro conjI)
  show "snd (snd (get_snapshot b k bids asks g1 g2)) = b\<lparr>total_snapshots := total_snapshots b + 1\<rparr>"
    by (rule book_get_snapshot)
  show "vector_max_size < unat k \<longrightarrow>
       fst (get_snapshot b k bids asks g1 g2) = Inl Length_error \<and>
       fst (snd (get_snapshot b k bids asks g1 g2)) = ([], [])"
    by (simp add: get_snapshot_def vector_reserve_def vector_clear_def Let_def)
  show "unat k \<le> vector_max_size \<and> \<not> (g1 \<and> g2) \<longrightarrow>
       fst (get_snapshot b k bids asks g1 g2) = Inl Bad_alloc \<and>
       fst (snd (get_snapshot b k bids asks g1 g2)) = ([], [])"
    by (auto simp: get_snapshot_def vector_reserve_def vector_clear_def Let_def)
  show "unat k \<le> vector_max_size \<longrightarrow>
       fst (get_snapshot b k bids asks True True) = Inr () \<and>
       fst (snd (get_snapshot b k bids asks True True)) =
         (take (unat k) (map level_view (bid_levels b)),
          take (unat k) (map level_view (ask_levels b))) \<and>
       length (fst (fst (snd (get_snapshot b k bids asks True True)))) =
         min (unat k) (length (bid_levels b)) \<and>
       length (snd (fst (snd (get_snapshot b k bids asks True True)))) =
         min (unat k) (length (ask_levels b)) \<and>
       sorted_wrt (\<lambda>x y. x > y)
         (map pl_price (fst (fst (snd (get_snapshot b k bids asks True True))))) \<and>
       sorted_wrt (\<lambda>x y. x < y)
         (map pl_price (snd (fst (snd (get_snapshot b k bids asks True True))))) \<and>
       (length (bid_levels b) \<le> unat k \<longrightarrow>
          fst (fst (snd (get_snapshot b k bids asks True True))) = map level_view (bid_levels b)) \<and>
       (length (ask_levels b) \<le> unat k \<longrightarrow>
          snd (fst (snd (get_snapshot b k bids asks True True))) = map level_view (ask_levels b))"
  proof
    assume k: "unat k \<le> vector_max_size"
    then have r: "get_snapshot b k bids asks True True =
        (Inr (),
         (take (unat k) (map level_view (bid_levels b)),
          take (unat k) (map level_view (ask_levels b))),
         b\<lparr>total_snapshots := total_snapshots b + 1\<rparr>)"
      by (simp add: get_snapshot_def vector_reserve_def vector_clear_def Let_def
          snapshot_loop_take)
    from w have "sorted_side True (bid_levels b)" "sorted_side False (ask_levels b)"
      by (simp_all add: wf_book_def side_ok_def)
    from sorted_side_prices [OF this(1), of "unat k"] sorted_side_prices [OF this(2), of "unat k"]
    have "sorted_wrt (\<lambda>x y. x > y)
            (map pl_price (fst (fst (snd (get_snapshot b k bids asks True True)))))"
      and "sorted_wrt (\<lambda>x y. x < y)
            (map pl_price (snd (fst (snd (get_snapshot b k bids asks True True)))))"
      by (simp_all add: r key_before_True key_before_False)
    then show "fst (get_snapshot b k bids asks True True) = Inr () \<and>
       fst (snd (get_snapshot b k bids asks True True)) =
         (take (unat k) (map level_view (bid_levels b)),
          take (unat k) (map level_view (ask_levels b))) \<and>
       length (fst (fst (snd (get_snapshot b k bids asks True True)))) =
         min (unat k) (length (bid_levels b)) \<and>
       length (snd (fst (snd (get_snapshot b k bids asks True True)))) =
         min (unat k) (length (ask_levels b)) \<and>
       sorted_wrt (\<lambda>x y. x > y)
         (map pl_price (fst (fst (snd (get_snapshot b k bids asks True True))))) \<and>
       sorted_wrt (\<lambda>x y. x < y)
         (map pl_price (snd (fst (snd (get_snapshot b k bids asks True True))))) \<and>
       (length (bid_levels b) \<le> unat k \<longrightarrow>
          fst (fst (snd (get_snapshot b k bids asks True True))) = map level_view (bid_levels b)) \<and>
       (length (ask_levels b) \<le> unat k \<longrightarrow>
          snd (fst (snd (get_snapshot b k bids asks True True))) = map level_view (ask_levels b))"
      by (simp add: r min.commute)
  qed
qed

theorem get_snapshot_top_levels_witness:
  "wf_book book5 \<and> unat (1 :: u64) \<le> vector_max_size \<and> unat (3 :: u64) \<le> vector_max_size \<and>
   vector_max_size < unat (2 ^ 59 :: u64) \<and>
   fst (get_snapshot book5 1 [level_view (7, Level_init 7)] [] True True) = Inr () \<and>
   fst (snd (get_snapshot book5 1 [level_view (7, Level_init 7)] [] True True)) =
     ([\<lparr>pl_price = 100, pl_total_quantity = 150\<rparr>], [\<lparr>pl_price = 101, pl_total_quantity = 70\<rparr>]) \<and>
   fst (get_snapshot book5 3 [] [] True True) = Inr () \<and>
   fst (snd (get_snapshot book5 3 [] [] True True)) =
     ([\<lparr>pl_price = 100, pl_total_quantity = 150\<rparr>, \<lparr>pl_price = 99, pl_total_quantity = 200\<rparr>],
      [\<lparr>pl_price = 101, pl_total_quantity = 70\<rparr>, \<lparr>pl_price = 102, pl_total_quantity = 80\<rparr>]) \<and>
   snd (snd (get_snapshot book5 3 [] [] True True)) =
     book5\<lparr>total_snapshots := total_snapshots book5 + 1\<rparr> \<and>
   fst (get_snapshot book5 (2 ^ 59) [level_view (7, Level_init 7)] [] True True) =
     Inl Length_error \<and>
   fst (snd (get_snapshot book5 (2 ^ 59) [level_view (7, Level_init 7)] [] True True)) =
     ([], []) \<and>
   fst (get_snapshot book5 3 [] [] True False) = Inl Bad_alloc \<and>
   fst (snd (get_snapshot book5 3 [] [] True False)) = ([], [])"
proof -
  have v: "map level_view (bid_levels book5) =
      [\<lparr>pl_price = 100, pl_total_quantity = 150\<rparr>, \<lparr>pl_price = 99, pl_total_quantity = 200\<rparr>]"
    "map level_view (ask_levels book5) =
      [\<lparr>pl_price = 101, pl_total_quantity = 70\<rparr>, \<lparr>pl_price = 102, pl_total_quantity = 80\<rparr>]"
    by (simp_all add: book5_def eval_defs level_view_def)
  have k: "unat (1 :: u64) \<le> vector_max_size" "unat (3 :: u64) \<le> vector_max_size"
    "vector_max_size < unat (2 ^ 59 :: u64)"
    by (simp_all add: vector_max_size_def)
  from get_snapshot_top_levels [OF book5_wf, of 1 "[level_view (7, Level_init 7)]" "[]" True True]
    get_snapshot_top_levels [OF book5_wf, of 3 "[]" "[]" True False]
    get_snapshot_top_levels [OF book5_wf, of 3 "[]" "[]" True True]
    get_snapshot_top_levels [OF book5_wf, of "2 ^ 59" "[level_view (7, Level_init 7)]" "[]" True True]
    k book5_wf
  show ?thesis by (simp add: v)
qed

text \<open>
  C9. \<open>get_best_prices\<close> returns the highest price among the nodes resting on the bid side
  and the lowest price among the nodes resting on the ask side; for an empty bid side it
  returns 0 and for an empty ask side the largest finite double.
\<close>

theorem get_best_prices_correct:
  "wf_book b \<Longrightarrow>
   fst (get_best_prices b) =
     (if bid_levels b = [] then 0 else Max (resting_prices b True),
      if ask_levels b = [] then double_max else Min (resting_prices b False))"
proof -
  assume w: "wf_book b"
  then have "cache_ok b" "side_ok (nodes b) True (bid_levels b)"
    "side_ok (nodes b) False (ask_levels b)"
    by (simp_all add: wf_book_def)
  from fst_get_best_prices [OF this(1)] front_price_bid [OF this(2)] front_price_ask [OF this(3)]
  show ?thesis by (simp add: resting_prices_def book_side_def)
qed

theorem get_best_prices_correct_witness:
  "wf_book new_book \<and> fst (get_best_prices new_book) = (0, double_max) \<and>
   wf_book book5 \<and> resting_prices book5 True = {100, 99} \<and> resting_prices book5 False = {101, 102} \<and>
   fst (get_best_prices book5) = (100, 101)"
proof -
  have w: "wf_book book5" by (simp add: book5_def wf_reachable)
  have e: "bid_levels new_book = []" "ask_levels new_book = []"
    by (simp_all add: new_book_def)
  have p: "resting_prices book5 True = {100, 99}" "resting_prices book5 False = {101, 102}"
    "bid_levels book5 \<noteq> []" "ask_levels book5 \<noteq> []"
    by (simp_all add: book5_def eval_defs resting_prices_def book_side_def side_addrs_def)
  from get_best_prices_correct [OF wf_new_book] get_best_prices_correct [OF w] w wf_new_book
  show ?thesis by (simp add: e p)
qed

text \<open>
  C10. A successful amend changes the price of the order exactly when the test of the source,
  \<^verbatim>\<open>std::abs(node->order.price - new_price) > epsilon\<close> in double precision, holds. Such a
  price-changing amend increments \<open>total_orders\<close> and \<open>total_cancels\<close> by one each,
  through the cancel and the add it performs, as well as \<open>total_amends\<close>, and the order
  then found under the ID carries the new price. Every other successful amend is
  quantity-only: the order keeps its node and its price, and \<open>total_amends\<close> alone is
  incremented.
\<close>

theorem amend_order_counters:
  assumes w: "wf_book b" and l: "order_lookup b oid = Some a"
  shows "fst (amend_order b oid p q now) \<and>
         (\<bar>double_sub (price (order (nodes b a))) p\<bar> > epsilon \<longrightarrow>
            total_orders (snd (amend_order b oid p q now)) = total_orders b + 1 \<and>
            total_cancels (snd (amend_order b oid p q now)) = total_cancels b + 1 \<and>
            total_amends (snd (amend_order b oid p q now)) = total_amends b + 1 \<and>
            p \<noteq> price (order (nodes b a)) \<and>
            (\<exists>a'. order_lookup (snd (amend_order b oid p q now)) oid = Some a' \<and>
                  price (order (nodes (snd (amend_order b oid p q now)) a')) = p)) \<and>
         (\<not> \<bar>double_sub (price (order (nodes b a))) p\<bar> > epsilon \<longrightarrow>
            total_orders (snd (amend_order b oid p q now)) = total_orders b \<and>
            total_cancels (snd (amend_order b oid p q now)) = total_cancels b \<and>
            total_amends (snd (amend_order b oid p q now)) = total_amends b + 1 \<and>
            order_lookup (snd (amend_order b oid p q now)) oid = Some a \<and>
            price (order (nodes (snd (amend_order b oid p q now)) a)) =
              price (order (nodes b a)))"
proof -
  let ?b' = "snd (amend_order b oid p q now)"
  from l have r: "fst (amend_order b oid p q now)" by (simp add: fst_amend_order)
  show ?thesis
  proof (cases "\<bar>double_sub (price (order (nodes b a))) p\<bar> > epsilon")
    case True
    let ?o = "amended (order (nodes b a)) p q now"
    let ?bc = "snd (cancel_order b oid)"
    from l have "order_lookup (b\<lparr>cache_valid := False\<rparr>) oid = Some a" by simp
    from counters_cancel_order [OF this]
    have c: "total_orders ?b' = total_orders b + 1" "total_cancels ?b' = total_cancels b + 1"
      "total_amends ?b' = total_amends b + 1"
      by (simp_all add: amend_order_price_change [OF l True] counters_add_order)
    from True have "9671406556917035 / 2 ^ 83 \<le> \<bar>price (order (nodes b a)) - p\<bar>"
      by (simp add: price_test)
    then have d: "p \<noteq> price (order (nodes b a))" by auto
    from wf_lookup_live [OF w l] have ida: "order_id (order (nodes b a)) = oid" by simp
    have "order_lookup ?bc (order_id ?o) = None"
      by (simp add: amended_def ida order_lookup_cancel_order)
    from add_order_tail [OF wf_cancel_order [OF w] this]
    have "order_lookup (add_order ?bc ?o) oid = Some (new_addr ?bc)"
      "order (nodes (add_order ?bc ?o) (new_addr ?bc)) = ?o"
      by (auto simp: amended_def ida)
    then have "order_lookup ?b' oid = Some (new_addr ?bc)"
      "price (order (nodes ?b' (new_addr ?bc))) = p"
      by (simp_all add: price_change_effect [OF l True] amended_def)
    then have "\<exists>a'. order_lookup ?b' oid = Some a' \<and> price (order (nodes ?b' a')) = p"
      by blast
    with r c d True show ?thesis by simp
  next
    case False
    note e = quantity_only_effect [OF w l False, of q now]
    have c: "total_orders ?b' = total_orders b" "total_cancels ?b' = total_cancels b"
      "total_amends ?b' = total_amends b + 1"
      by (simp_all add: amend_order_quantity_only [OF l False])
    from e(2) l have la: "order_lookup ?b' oid = Some a" by simp
    have "price (order (nodes ?b' a)) = price (order (nodes b a))" by (simp add: e(1))
    with r c la False show ?thesis by simp
  qed
qed

theorem amend_order_counters_witness:
  "wf_book book5 \<and> order_lookup book5 1 = Some 0 \<and> price (order (nodes book5 0)) = 100 \<and>
   total_orders book5 = 5 \<and> total_cancels book5 = 0 \<and> total_amends book5 = 0 \<and>
   \<bar>double_sub (price (order (nodes book5 0))) 98\<bar> > epsilon \<and>
   total_orders (snd (amend_order book5 1 98 100 9)) = 6 \<and>
   total_cancels (snd (amend_order book5 1 98 100 9)) = 1 \<and>
   total_amends (snd (amend_order book5 1 98 100 9)) = 1 \<and>
   \<not> \<bar>double_sub (price (order (nodes book5 0))) 100\<bar> > epsilon \<and>
   total_orders (snd (amend_order book5 1 100 60 9)) = 5 \<and>
   total_cancels (snd (amend_order book5 1 100 60 9)) = 0 \<and>
   total_amends (snd (amend_order book5 1 100 60 9)) = 1 \<and>
   wf_book book_tiny \<and> order_lookup book_tiny 1 = Some 0 \<and>
   price (order (nodes book_tiny 0)) = epsilon \<and>
   total_orders book_tiny = 1 \<and> total_cancels book_tiny = 0 \<and> total_amends book_tiny = 0 \<and>
   \<not> \<bar>double_sub (price (order (nodes book_tiny 0))) (2 * epsilon)\<bar> > epsilon \<and>
   total_orders (snd (amend_order book_tiny 1 (2 * epsilon) 100 9)) = 1 \<and>
   total_cancels (snd (amend_order book_tiny 1 (2 * epsilon) 100 9)) = 0 \<and>
   total_amends (snd (amend_order book_tiny 1 (2 * epsilon) 100 9)) = 1 \<and>
   price (order (nodes (snd (amend_order book_tiny 1 (2 * epsilon) 100 9)) 0)) = epsilon"
proof -
  have h: "order_lookup book5 1 = Some 0" "price (order (nodes book5 0)) = 100"
    "total_orders book5 = 5" "total_cancels book5 = 0" "total_amends book5 = 0"
    by (simp_all add: book5_def eval_defs)
  have t: "\<bar>double_sub (price (order (nodes book5 0))) 98\<bar> > epsilon"
    "\<not> \<bar>double_sub (price (order (nodes book5 0))) 100\<bar> > epsilon"
    unfolding price_test by (simp_all add: h)
  have t': "\<not> \<bar>double_sub (price (order (nodes book_tiny 0))) (2 * epsilon)\<bar> > epsilon"
    unfolding price_test by (simp add: book_tiny_eval epsilon_def)
  from amend_order_counters [OF book5_wf h(1), of 98 100 9]
    amend_order_counters [OF book5_wf h(1), of 100 60 9]
    amend_order_counters [OF book_tiny_wf book_tiny_eval(1), of "2 * epsilon" 100 9]
    h t t' book5_wf book_tiny_wf book_tiny_eval
  show ?thesis by simp
qed

end
